theory Spec2Isabelle
  imports Main
begin

section \<open>Grids and array access\<close>

text \<open>
  A grid is a JavaScript array of arrays of numbers; the value 0 marks an EMPTY cell.
  Reading \<open>board[row][col]\<close> raises a TypeError when \<open>board[row]\<close> is undefined (the
  row index is out of range) and yields \<open>undefined\<close> (here \<open>None\<close>) when only the column
  index is out of range. \<open>OutOfFuel\<close> is not a JavaScript error: it marks a run of the
  model whose recursion budget was too small.
\<close>

datatype error = TypeError | OutOfFuel

type_synonym grid = "nat list list"

definition bindE :: "error + 'a \<Rightarrow> ('a \<Rightarrow> error + 'b) \<Rightarrow> error + 'b" where
  "bindE m f = (case m of Inl e \<Rightarrow> Inl e | Inr x \<Rightarrow> f x)"

definition cellAt :: "grid \<Rightarrow> nat \<Rightarrow> nat \<Rightarrow> error + nat option" where
  "cellAt board row col =
     (if row < length board
      then Inr (if col < length (board ! row) then Some (board ! row ! col) else None)
      else Inl TypeError)"

text \<open>The assignment \<open>board[row][col] = v\<close>; the solver only assigns to cells it has read.\<close>

definition setCell :: "grid \<Rightarrow> nat \<Rightarrow> nat \<Rightarrow> nat \<Rightarrow> grid" where
  "setCell board row col v = board[row := (board ! row)[col := v]]"

section \<open>isValid\<close>

text \<open>The first loop of \<open>isValid\<close>: row and column, with the short-circuit \<open>||\<close>.\<close>

fun isValid_lines :: "grid \<Rightarrow> nat \<Rightarrow> nat \<Rightarrow> nat \<Rightarrow> nat list \<Rightarrow> error + bool" where
  "isValid_lines board row col num [] = Inr True"
| "isValid_lines board row col num (i # is) =
     bindE (cellAt board row i) (\<lambda>a.
       if a = Some num then Inr False
       else bindE (cellAt board i col) (\<lambda>b.
         if b = Some num then Inr False
         else isValid_lines board row col num is))"

text \<open>The nested loops over the 3x3 box, as one loop over the offsets \<open>(i, j)\<close>.\<close>

fun isValid_box :: "grid \<Rightarrow> nat \<Rightarrow> nat \<Rightarrow> nat \<Rightarrow> (nat \<times> nat) list \<Rightarrow> error + bool" where
  "isValid_box board startRow startCol num [] = Inr True"
| "isValid_box board startRow startCol num ((i, j) # ps) =
     bindE (cellAt board (startRow + i) (startCol + j)) (\<lambda>a.
       if a = Some num then Inr False
       else isValid_box board startRow startCol num ps)"

definition offsets3 :: "(nat \<times> nat) list" where
  "offsets3 = concat (map (\<lambda>i. map (\<lambda>j. (i, j)) [0..<3]) [0..<3])"

definition isValid :: "grid \<Rightarrow> nat \<Rightarrow> nat \<Rightarrow> nat \<Rightarrow> error + bool" where
  "isValid board row col num =
     bindE (isValid_lines board row col num [0..<9]) (\<lambda>ok.
       if \<not> ok then Inr False
       else isValid_box board (row div 3 * 3) (col div 3 * 3) num offsets3)"

section \<open>solve\<close>

text \<open>
  The state the closure \<open>backtrack\<close> works on: the caller's board, the counter
  \<open>count\<close>, and the position \<open>tick\<close> in the stream of random digit orders.
  \<open>shuffle k\<close> is the array that the k-th call of
  \<open>[1..9].sort(() => Math.random() - 0.5)\<close> produces.
\<close>

record search =
  boardOf :: grid
  count :: nat
  tick :: nat

definition cells9 :: "(nat \<times> nat) list" where
  "cells9 = concat (map (\<lambda>row. map (\<lambda>col. (row, col)) [0..<9]) [0..<9])"

text \<open>The two scanning loops of \<open>backtrack\<close>: the first cell, in row-major order, that is 0.\<close>

fun firstEmpty :: "grid \<Rightarrow> (nat \<times> nat) list \<Rightarrow> error + (nat \<times> nat) option" where
  "firstEmpty b [] = Inr None"
| "firstEmpty b ((row, col) # ps) =
     bindE (cellAt b row col) (\<lambda>v.
       if v = Some 0 then Inr (Some (row, col)) else firstEmpty b ps)"

text \<open>
  \<open>backtrack\<close> and its loop over \<open>nums\<close>. The recursion budget \<open>fuel\<close> bounds the
  depth of the recursion, one unit for each nested call of \<open>backtrack\<close>. Every nested
  call is made with one more cell of the 9x9 window filled, so a budget above 81 is
  never used up on a grid with 9 rows of 9 cells (lemma \<open>runs_backtrack\<close> below).
\<close>

fun backtrack :: "(nat \<Rightarrow> nat list) \<Rightarrow> nat \<Rightarrow> nat \<Rightarrow> search \<Rightarrow> error + (bool \<times> search)"
  and tryNums :: "(nat \<Rightarrow> nat list) \<Rightarrow> nat \<Rightarrow> nat \<Rightarrow> nat \<Rightarrow> nat \<Rightarrow> nat list \<Rightarrow> search
                    \<Rightarrow> error + (bool \<times> search)"
where
  "backtrack shuffle solutions 0 s = Inl OutOfFuel"
| "backtrack shuffle solutions (Suc fuel) s =
     bindE (firstEmpty (boardOf s) cells9) (\<lambda>e.
       case e of
         Some (row, col) \<Rightarrow>
           tryNums shuffle solutions fuel row col (shuffle (tick s)) (s\<lparr>tick := Suc (tick s)\<rparr>)
       | None \<Rightarrow>
           if solutions = 1 then Inr (True, s)
           else Inr (solutions \<le> Suc (count s), s\<lparr>count := Suc (count s)\<rparr>))"
| "tryNums shuffle solutions fuel row col [] s =
     Inr (if solutions = 1 then False else solutions \<le> count s, s)"
| "tryNums shuffle solutions fuel row col (num # nums) s =
     bindE (isValid (boardOf s) row col num) (\<lambda>valid.
       if valid then
         bindE (backtrack shuffle solutions fuel (s\<lparr>boardOf := setCell (boardOf s) row col num\<rparr>))
           (\<lambda>(found, s1).
             if solutions = 1 then
               if found then Inr (True, s1)
               else tryNums shuffle solutions fuel row col nums
                      (s1\<lparr>boardOf := setCell (boardOf s1) row col 0\<rparr>)
             else if found then
               if solutions \<le> Suc (count s1) then Inr (True, s1\<lparr>count := Suc (count s1)\<rparr>)
               else tryNums shuffle solutions fuel row col nums
                      (s1\<lparr>count := Suc (count s1), boardOf := setCell (boardOf s1) row col 0\<rparr>)
             else tryNums shuffle solutions fuel row col nums
                    (s1\<lparr>boardOf := setCell (boardOf s1) row col 0\<rparr>))
       else tryNums shuffle solutions fuel row col nums s)"

text \<open>
  \<open>solve\<close> returns a boolean when \<open>solutions\<close> is 1 and the counter otherwise. The
  model returns the caller's board as well, as \<open>backtrack\<close> left it, and the position
  reached in the stream of digit orders. The earlier variant of \<open>solve\<close> in script.js
  also builds a copy \<open>tempBoard\<close> of the board in counting mode; nothing reads it, and
  \<open>backtrack\<close> works on \<open>board\<close> there too, so the two variants compute the same.
\<close>

datatype retval = Bool bool | Number nat

definition solve :: "(nat \<Rightarrow> nat list) \<Rightarrow> nat \<Rightarrow> grid \<Rightarrow> nat \<Rightarrow> nat \<Rightarrow> error + (retval \<times> grid \<times> nat)" where
  "solve shuffle fuel b solutions t =
     bindE (backtrack shuffle solutions fuel \<lparr>boardOf = b, count = 0, tick = t\<rparr>) (\<lambda>(found, s).
       if solutions = 1 then Inr (Bool found, boardOf s, tick s)
       else Inr (Number (count s), boardOf s, tick s))"

definition generateFullGrid :: "(nat \<Rightarrow> nat list) \<Rightarrow> nat \<Rightarrow> nat \<Rightarrow> error + (grid \<times> nat)" where
  "generateFullGrid shuffle fuel t =
     bindE (solve shuffle fuel (replicate 9 (replicate 9 0)) 1 t) (\<lambda>(r, b, t'). Inr (b, t'))"

section \<open>Technique analysis\<close>

text \<open>
  \<open>if (x !== 0) candidates.delete(x)\<close> for a value \<open>x\<close> read from the board: deleting
  \<open>undefined\<close> from the set changes nothing.
\<close>

definition discard :: "nat option \<Rightarrow> nat list \<Rightarrow> nat list" where
  "discard x candidates =
     (case x of None \<Rightarrow> candidates
      | Some n \<Rightarrow> if n \<noteq> 0 then removeAll n candidates else candidates)"

fun findCandidates_lines :: "grid \<Rightarrow> nat \<Rightarrow> nat \<Rightarrow> nat list \<Rightarrow> nat list \<Rightarrow> error + nat list" where
  "findCandidates_lines board row col candidates [] = Inr candidates"
| "findCandidates_lines board row col candidates (i # is) =
     bindE (cellAt board row i) (\<lambda>a.
       bindE (cellAt board i col) (\<lambda>b.
         findCandidates_lines board row col (discard b (discard a candidates)) is))"

fun findCandidates_box :: "grid \<Rightarrow> nat \<Rightarrow> nat \<Rightarrow> nat list \<Rightarrow> (nat \<times> nat) list \<Rightarrow> error + nat list" where
  "findCandidates_box board startRow startCol candidates [] = Inr candidates"
| "findCandidates_box board startRow startCol candidates ((i, j) # ps) =
     bindE (cellAt board (startRow + i) (startCol + j)) (\<lambda>a.
       findCandidates_box board startRow startCol (discard a candidates) ps)"

text \<open>The set of candidates is kept as the list of its members in insertion order.\<close>

definition findCandidates :: "grid \<Rightarrow> nat \<Rightarrow> nat \<Rightarrow> error + nat list" where
  "findCandidates board row col =
     bindE (cellAt board row col) (\<lambda>v.
       if v \<noteq> Some 0 then Inr []
       else bindE (findCandidates_lines board row col [1..<10] [0..<9]) (\<lambda>candidates.
              findCandidates_box board (row div 3 * 3) (col div 3 * 3) candidates offsets3))"

datatype level = EASY_SINGLE | REQUIRES_ADVANCED | SOLVED

text \<open>
  The first pair of loops of \<open>getRequiredTechniqueLevel\<close> fills \<open>allCandidates\<close> cell by
  cell and returns early (\<open>None\<close>) at the first cell with exactly one candidate.
\<close>

type_synonym candidateTable = "nat \<Rightarrow> nat \<Rightarrow> nat list"

fun nakedLoop :: "grid \<Rightarrow> candidateTable \<Rightarrow> (nat \<times> nat) list \<Rightarrow> error + candidateTable option" where
  "nakedLoop board allCandidates [] = Inr (Some allCandidates)"
| "nakedLoop board allCandidates ((r, c) # ps) =
     bindE (cellAt board r c) (\<lambda>v.
       bindE (if v = Some 0 then findCandidates board r c else Inr []) (\<lambda>cands.
         if length cands = 1 then Inr None
         else nakedLoop board (allCandidates(r := (allCandidates r)(c := cands))) ps))"

definition rowCount :: "candidateTable \<Rightarrow> nat \<Rightarrow> nat \<Rightarrow> nat" where
  "rowCount allCandidates i num = length (filter (\<lambda>c. num \<in> set (allCandidates i c)) [0..<9])"

definition colCount :: "candidateTable \<Rightarrow> nat \<Rightarrow> nat \<Rightarrow> nat" where
  "colCount allCandidates i num = length (filter (\<lambda>r. num \<in> set (allCandidates r i)) [0..<9])"

definition boxCount :: "candidateTable \<Rightarrow> nat \<Rightarrow> nat \<Rightarrow> nat" where
  "boxCount allCandidates i num =
     length (filter (\<lambda>(r, c). num \<in> set (allCandidates (i div 3 * 3 + r) (i mod 3 * 3 + c))) offsets3)"

text \<open>The loops over the unit index \<open>i\<close> and the digit \<open>num\<close>; \<open>True\<close> is the early return.\<close>

fun hiddenLoop :: "candidateTable \<Rightarrow> (nat \<times> nat) list \<Rightarrow> bool" where
  "hiddenLoop allCandidates [] = False"
| "hiddenLoop allCandidates ((i, num) # ps) =
     (if rowCount allCandidates i num = 1 then True
      else if colCount allCandidates i num = 1 then True
      else if boxCount allCandidates i num = 1 then True
      else hiddenLoop allCandidates ps)"

definition unitDigits :: "(nat \<times> nat) list" where
  "unitDigits = concat (map (\<lambda>i. map (\<lambda>num. (i, num)) [1..<10]) [0..<9])"

definition getRequiredTechniqueLevel :: "grid \<Rightarrow> error + level" where
  "getRequiredTechniqueLevel board =
     bindE (nakedLoop board (\<lambda>r c. []) cells9) (\<lambda>res.
       case res of
         None \<Rightarrow> Inr EASY_SINGLE
       | Some allCandidates \<Rightarrow>
           if hiddenLoop allCandidates unitDigits then Inr EASY_SINGLE
           else if list_all (\<lambda>row. list_all (\<lambda>val. val \<noteq> 0) row) board then Inr SOLVED
           else Inr REQUIRES_ADVANCED)"

section \<open>Puzzle generation\<close>

text \<open>
  The variables of \<open>generateSudokuPuzzle\<close>; \<open>rnd\<close> is the position in the stream of
  digit orders that the calls of \<open>solve\<close> consume.
\<close>

record gen =
  puzzle :: grid
  clues :: int
  attempts :: nat
  removableCells :: "(nat \<times> nat) list"
  rnd :: nat

definition maxAttemptsPerRemoval :: nat where
  "maxAttemptsPerRemoval = 50"

text \<open>
  Lines 178 to 192: the full grid, its copy, the counters and the shuffled coordinate
  list. \<open>shuffleCells\<close> is what the sort with the random comparator does to the list.
\<close>

definition initialGen :: "(nat \<Rightarrow> nat list) \<Rightarrow> ((nat \<times> nat) list \<Rightarrow> (nat \<times> nat) list) \<Rightarrow> nat \<Rightarrow> nat
                            \<Rightarrow> error + gen" where
  "initialGen shuffle shuffleCells fuel t =
     bindE (generateFullGrid shuffle fuel t) (\<lambda>(fullGrid, t').
       Inr \<lparr>puzzle = fullGrid, clues = 81, attempts = 0,
            removableCells = shuffleCells cells9, rnd = t'\<rparr>)"

text \<open>
  One pass through the body of the while loop (lines 197 to 223), entered with a
  non-empty coordinate list. The coordinates come from the list built by the two loops
  over 0..8, so the cell read is a cell of the 9x9 puzzle; an index outside the puzzle
  is reported as the TypeError that an undefined row raises.
\<close>

definition removalStep :: "(nat \<Rightarrow> nat list) \<Rightarrow> nat \<Rightarrow> string \<Rightarrow> gen \<Rightarrow> error + gen" where
  "removalStep shuffle fuel difficulty g =
     (let (r, c) = last (removableCells g);
          rest = butlast (removableCells g)
      in if \<not> (r < length (puzzle g) \<and> c < length (puzzle g ! r)) then Inl TypeError
         else
           let originalValue = puzzle g ! r ! c;
               cleared = setCell (puzzle g) r c 0
           in bindE (solve shuffle fuel cleared 2 (rnd g)) (\<lambda>(solutionsFound, copy, t').
                bindE (if difficulty = ''easy'' \<or> difficulty = ''medium''
                       then bindE (getRequiredTechniqueLevel cleared) (\<lambda>requiredLevel.
                              Inr (requiredLevel \<noteq> REQUIRES_ADVANCED))
                       else Inr True) (\<lambda>techniqueCheckPassed.
                  if solutionsFound = Number 1 \<and> techniqueCheckPassed
                  then Inr (g\<lparr>puzzle := cleared, clues := clues g - 1, attempts := 0,
                               removableCells := rest, rnd := t'\<rparr>)
                  else Inr (g\<lparr>puzzle := setCell cleared r c originalValue,
                               removableCells := (r, c) # rest,
                               attempts := Suc (attempts g), rnd := t'\<rparr>))))"

text \<open>The while loop; \<open>None\<close> would be a loop that never ends.\<close>

partial_function (option) removalLoop ::
  "(nat \<Rightarrow> nat list) \<Rightarrow> nat \<Rightarrow> int \<Rightarrow> string \<Rightarrow> gen \<Rightarrow> (error + gen) option" where
  [code]: "removalLoop shuffle fuel targetClues difficulty g =
     (if clues g > targetClues \<and> removableCells g \<noteq> [] then
        if attempts g \<ge> maxAttemptsPerRemoval then Some (Inr g)
        else (case removalStep shuffle fuel difficulty g of
                Inl e \<Rightarrow> Some (Inl e)
              | Inr g' \<Rightarrow> removalLoop shuffle fuel targetClues difficulty g')
      else Some (Inr g))"

definition generateSudokuPuzzle ::
  "(nat \<Rightarrow> nat list) \<Rightarrow> ((nat \<times> nat) list \<Rightarrow> (nat \<times> nat) list) \<Rightarrow> nat \<Rightarrow> int \<Rightarrow> string \<Rightarrow> nat
     \<Rightarrow> (error + grid \<times> nat) option" where
  "generateSudokuPuzzle shuffle shuffleCells fuel targetClues difficulty t =
     (case initialGen shuffle shuffleCells fuel t of
        Inl e \<Rightarrow> Some (Inl e)
      | Inr g0 \<Rightarrow>
          (case removalLoop shuffle fuel targetClues difficulty g0 of
             None \<Rightarrow> None
           | Some (Inl e) \<Rightarrow> Some (Inl e)
           | Some (Inr g) \<Rightarrow> Some (Inr (puzzle g, rnd g))))"

definition DIFFICULTY_CLUES :: "string \<Rightarrow> int option" where
  "DIFFICULTY_CLUES =
     [''easy'' \<mapsto> 48, ''medium'' \<mapsto> 35, ''hard'' \<mapsto> 25, ''minima'' \<mapsto> 17]"

text \<open>
  The part of \<open>newGame\<close> that computes: the puzzle and the solution of its copy
  (lines 359 and 369 to 373). The result is the pair \<open>currentPuzzle\<close>, \<open>solution\<close>.
\<close>

definition newGame ::
  "(nat \<Rightarrow> nat list) \<Rightarrow> ((nat \<times> nat) list \<Rightarrow> (nat \<times> nat) list) \<Rightarrow> nat \<Rightarrow> string \<Rightarrow> nat
     \<Rightarrow> (error + grid \<times> grid) option" where
  "newGame shuffle shuffleCells fuel difficulty t =
     (let targetClues = (case DIFFICULTY_CLUES difficulty of
                           Some n \<Rightarrow> n
                         | None \<Rightarrow> the (DIFFICULTY_CLUES ''easy''))
      in case generateSudokuPuzzle shuffle shuffleCells fuel targetClues difficulty t of
           None \<Rightarrow> None
         | Some (Inl e) \<Rightarrow> Some (Inl e)
         | Some (Inr (currentPuzzle, t1)) \<Rightarrow>
             (case solve shuffle fuel currentPuzzle 1 t1 of
                Inl e \<Rightarrow> Some (Inl e)
              | Inr (r, solution, t2) \<Rightarrow> Some (Inr (currentPuzzle, solution))))"

section \<open>Properties of grids\<close>

text \<open>A well-formed grid has 9 rows of 9 cells; the cells may hold any number.\<close>

definition wf_grid :: "grid \<Rightarrow> bool" where
  "wf_grid b \<longleftrightarrow> length b = 9 \<and> list_all (\<lambda>row. length row = 9) b"

text \<open>The 27 units: rows, columns and 3x3 boxes, each as the list of its coordinates.\<close>

definition unitCells :: "(nat \<times> nat) list list" where
  "unitCells =
     map (\<lambda>r. map (\<lambda>c. (r, c)) [0..<9]) [0..<9] @
     map (\<lambda>c. map (\<lambda>r. (r, c)) [0..<9]) [0..<9] @
     map (\<lambda>k. map (\<lambda>(i, j). (k div 3 * 3 + i, k mod 3 * 3 + j)) offsets3) [0..<9]"

text \<open>A fully assigned valid grid: every unit holds each digit 1 to 9 exactly once.\<close>

definition valid_grid :: "grid \<Rightarrow> bool" where
  "valid_grid b \<longleftrightarrow>
     wf_grid b \<and>
     list_all (\<lambda>u. list_all (\<lambda>d. count_list (map (\<lambda>(r, c). b ! r ! c) u) d = 1) [1..<10]) unitCells"

definition sameUnit :: "nat \<times> nat \<Rightarrow> nat \<times> nat \<Rightarrow> bool" where
  "sameUnit p q \<longleftrightarrow>
     fst p = fst q \<or> snd p = snd q \<or> (fst p div 3 = fst q div 3 \<and> snd p div 3 = snd q div 3)"

text \<open>
  The given cells of a grid are acceptable when each holds 0 or a digit up to 9 and no
  two cells of one unit hold the same digit.
\<close>

definition clues_ok :: "grid \<Rightarrow> bool" where
  "clues_ok b \<longleftrightarrow>
     wf_grid b \<and>
     list_all (\<lambda>(r, c). b ! r ! c \<le> 9 \<and>
       (b ! r ! c \<noteq> 0 \<longrightarrow>
          list_all (\<lambda>(r', c'). (r', c') \<noteq> (r, c) \<and> sameUnit (r, c) (r', c') \<longrightarrow> b ! r' ! c' \<noteq> b ! r ! c)
            cells9)) cells9"

definition emptyCells :: "grid \<Rightarrow> nat" where
  "emptyCells b = length (filter (\<lambda>(r, c). b ! r ! c = 0) cells9)"

definition clueCount :: "grid \<Rightarrow> nat" where
  "clueCount b = length (filter (\<lambda>(r, c). b ! r ! c \<noteq> 0) cells9)"

text \<open>\<open>s\<close> keeps every non-empty cell of \<open>b\<close>.\<close>

definition extends :: "grid \<Rightarrow> grid \<Rightarrow> bool" where
  "extends b s \<longleftrightarrow> list_all (\<lambda>(r, c). b ! r ! c \<noteq> 0 \<longrightarrow> s ! r ! c = b ! r ! c) cells9"

text \<open>The solutions of a grid: the valid full grids that keep its non-empty cells.\<close>

definition completions :: "grid \<Rightarrow> grid set" where
  "completions b = {s. valid_grid s \<and> extends b s}"

text \<open>
  Each array that the random sort of the digits produces is a permutation of 1..9, and
  the random sort of the coordinate list is a permutation of the 81 coordinates.
\<close>

definition perm_orders :: "(nat \<Rightarrow> nat list) \<Rightarrow> bool" where
  "perm_orders shuffle \<longleftrightarrow> (\<forall>k. distinct (shuffle k) \<and> set (shuffle k) = {1..9})"

definition perm_cells :: "((nat \<times> nat) list \<Rightarrow> (nat \<times> nat) list) \<Rightarrow> bool" where
  "perm_cells shuffleCells \<longleftrightarrow>
     distinct (shuffleCells cells9) \<and> set (shuffleCells cells9) = set cells9"

section \<open>Notions used in the proofs\<close>

text \<open>No cell of the 9x9 grid is empty.\<close>

definition full :: "grid \<Rightarrow> bool" where
  "full b \<longleftrightarrow> (\<forall>r<9. \<forall>c<9. b ! r ! c \<noteq> 0)"

text \<open>What \<open>isValid\<close> decides on a well-formed grid: no cell of the row, the column or
  the box of \<open>(r, c)\<close> holds \<open>n\<close>.\<close>

definition safe :: "grid \<Rightarrow> nat \<Rightarrow> nat \<Rightarrow> nat \<Rightarrow> bool" where
  "safe b r c n \<longleftrightarrow> (\<forall>r'<9. \<forall>c'<9. sameUnit (r, c) (r', c') \<longrightarrow> b ! r' ! c' \<noteq> n)"

text \<open>
  The outcome of a search in counting mode with limit \<open>L\<close>, started in state \<open>s\<close> on a
  part of the search space with solution set \<open>S\<close>: below the limit the board is restored
  and the counter has grown by the number of solutions; otherwise the search has stopped
  on a solution.
\<close>

definition countSpec :: "nat \<Rightarrow> search \<Rightarrow> grid set \<Rightarrow> error + bool \<times> search \<Rightarrow> bool" where
  "countSpec L s S res \<longleftrightarrow>
     (\<exists>s'. res = Inr (L \<le> count s + card S, s') \<and>
        (count s + card S < L \<longrightarrow> boardOf s' = boardOf s \<and> count s' = count s + card S) \<and>
        (L \<le> count s + card S \<longrightarrow> count s' = L + emptyCells (boardOf s) \<and> boardOf s' \<in> S))"

text \<open>The outcome of a search for one solution.\<close>

definition findSpec :: "search \<Rightarrow> grid set \<Rightarrow> error + bool \<times> search \<Rightarrow> bool" where
  "findSpec s S res \<longleftrightarrow>
     (\<exists>s'. res = Inr (S \<noteq> {}, s') \<and> count s' = count s \<and>
        (S = {} \<longrightarrow> boardOf s' = boardOf s) \<and> (S \<noteq> {} \<longrightarrow> boardOf s' \<in> S))"

text \<open>A search that returns, on a well-formed board with no more empty cells than \<open>b\<close>.\<close>

definition runsSpec :: "grid \<Rightarrow> error + bool \<times> search \<Rightarrow> bool" where
  "runsSpec b res \<longleftrightarrow>
     (\<exists>found s'. res = Inr (found, s') \<and> wf_grid (boardOf s') \<and> emptyCells (boardOf s') \<le> emptyCells b)"

section \<open>Singles, in the words of the specification\<close>

text \<open>
  The candidates of an empty cell are the digits 1 to 9 not seen in its row, column or
  box; a filled cell has none.
\<close>

definition candidateSet :: "grid \<Rightarrow> nat \<Rightarrow> nat \<Rightarrow> nat set" where
  "candidateSet b r c = (if b ! r ! c = 0 then {d \<in> {1..9}. safe b r c d} else {})"

text \<open>A naked single: an empty cell with exactly one candidate.\<close>

definition nakedSingle :: "grid \<Rightarrow> bool" where
  "nakedSingle b \<longleftrightarrow> (\<exists>r<9. \<exists>c<9. b ! r ! c = 0 \<and> card (candidateSet b r c) = 1)"

text \<open>A hidden single: a unit in which exactly one cell admits some digit.\<close>

definition hiddenSingle :: "grid \<Rightarrow> bool" where
  "hiddenSingle b \<longleftrightarrow>
     (\<exists>u\<in>set unitCells. \<exists>d\<in>{1..9}. card {p \<in> set u. d \<in> candidateSet b (fst p) (snd p)} = 1)"

text \<open>The list that \<open>findCandidates\<close> returns on a well-formed grid.\<close>

definition candidateList :: "grid \<Rightarrow> nat \<Rightarrow> nat \<Rightarrow> nat list" where
  "candidateList b r c = (if b ! r ! c = 0 then filter (safe b r c) [1..<10] else [])"

definition rowUnit :: "nat \<Rightarrow> (nat \<times> nat) list" where
  "rowUnit i = map (\<lambda>c. (i, c)) [0..<9]"

definition colUnit :: "nat \<Rightarrow> (nat \<times> nat) list" where
  "colUnit i = map (\<lambda>r. (r, i)) [0..<9]"

definition boxUnit :: "nat \<Rightarrow> (nat \<times> nat) list" where
  "boxUnit i = map (\<lambda>(r, c). (i div 3 * 3 + r, i mod 3 * 3 + c)) offsets3"

section \<open>The removal loop: measure, invariant, states passed through\<close>

text \<open>The quantity that every pass of the removal loop decreases.\<close>

definition loopMeasure :: "gen \<Rightarrow> nat" where
  "loopMeasure g = length (removableCells g) * Suc maxAttemptsPerRemoval + (maxAttemptsPerRemoval - attempts g)"

text \<open>
  What every pass of the removal loop keeps: the puzzle has acceptable clues and exactly
  one solution, the counter \<open>clues\<close> is its number of non-empty cells, and the
  coordinates still to try are distinct cells that are not empty.
\<close>

definition genInv :: "int \<Rightarrow> gen \<Rightarrow> bool" where
  "genInv targetClues g \<longleftrightarrow>
     clues_ok (puzzle g) \<and> card (completions (puzzle g)) = 1 \<and>
     int (clueCount (puzzle g)) = clues g \<and> distinct (removableCells g) \<and>
     (\<forall>(r, c)\<in>set (removableCells g). r < 9 \<and> c < 9 \<and> puzzle g ! r ! c \<noteq> 0) \<and>
     (targetClues \<le> 81 \<longrightarrow> targetClues \<le> clues g)"

text \<open>The states in which the while loop, started in \<open>g0\<close>, evaluates its condition.\<close>

inductive loopVisits :: "(nat \<Rightarrow> nat list) \<Rightarrow> nat \<Rightarrow> int \<Rightarrow> string \<Rightarrow> gen \<Rightarrow> gen \<Rightarrow> bool"
  for shuffle fuel targetClues difficulty g0
where
  start: "loopVisits shuffle fuel targetClues difficulty g0 g0"
| pass: "loopVisits shuffle fuel targetClues difficulty g0 g \<Longrightarrow>
         targetClues < clues g \<Longrightarrow> removableCells g \<noteq> [] \<Longrightarrow> attempts g < maxAttemptsPerRemoval \<Longrightarrow>
         removalStep shuffle fuel difficulty g = Inr g' \<Longrightarrow>
         loopVisits shuffle fuel targetClues difficulty g0 g'"

section \<open>Example grids\<close>

definition exampleSolution :: grid where
  "exampleSolution =
     [[5,3,4,6,7,8,9,1,2],
      [6,7,2,1,9,5,3,4,8],
      [1,9,8,3,4,2,5,6,7],
      [8,5,9,7,6,1,4,2,3],
      [4,2,6,8,5,3,7,9,1],
      [7,1,3,9,2,4,8,5,6],
      [9,6,1,5,3,7,2,8,4],
      [2,8,7,4,1,9,6,3,5],
      [3,4,5,2,8,6,1,7,9]]"

definition emptyGrid :: grid where
  "emptyGrid = replicate 9 (replicate 9 0)"

text \<open>The example with the four corners of a rectangle of 6 and 7 cleared: two solutions.\<close>

definition twoSolutions :: grid where
  "twoSolutions =
     [[5,3,4,0,0,8,9,1,2],
      [6,7,2,1,9,5,3,4,8],
      [1,9,8,3,4,2,5,6,7],
      [8,5,9,0,0,1,4,2,3],
      [4,2,6,8,5,3,7,9,1],
      [7,1,3,9,2,4,8,5,6],
      [9,6,1,5,3,7,2,8,4],
      [2,8,7,4,1,9,6,3,5],
      [3,4,5,2,8,6,1,7,9]]"

definition otherSolution :: grid where
  "otherSolution =
     [[5,3,4,7,6,8,9,1,2],
      [6,7,2,1,9,5,3,4,8],
      [1,9,8,3,4,2,5,6,7],
      [8,5,9,6,7,1,4,2,3],
      [4,2,6,8,5,3,7,9,1],
      [7,1,3,9,2,4,8,5,6],
      [9,6,1,5,3,7,2,8,4],
      [2,8,7,4,1,9,6,3,5],
      [3,4,5,2,8,6,1,7,9]]"

text \<open>The example with three corners of the rectangle cleared: one solution.\<close>

definition threeCleared :: grid where
  "threeCleared =
     [[5,3,4,0,0,8,9,1,2],
      [6,7,2,1,9,5,3,4,8],
      [1,9,8,3,4,2,5,6,7],
      [8,5,9,0,6,1,4,2,3],
      [4,2,6,8,5,3,7,9,1],
      [7,1,3,9,2,4,8,5,6],
      [9,6,1,5,3,7,2,8,4],
      [2,8,7,4,1,9,6,3,5],
      [3,4,5,2,8,6,1,7,9]]"

text \<open>A state of the removal loop whose next removal, of cell (3, 4), leaves two solutions.\<close>

definition genReject :: gen where
  "genReject = \<lparr>puzzle = threeCleared, clues = 78, attempts = 3,
                 removableCells = [(0, 0), (3, 4)], rnd = 0\<rparr>"

text \<open>
  A state of the removal loop with three corners of each of two rectangles cleared: the
  removal of the fourth corner of either rectangle leaves two solutions.
\<close>

definition genTwoRectangles :: gen where
  "genTwoRectangles =
     \<lparr>puzzle =
        [[5,3,4,0,0,8,9,1,2],
         [6,7,2,1,9,5,3,0,0],
         [1,9,8,3,4,2,5,6,7],
         [8,5,9,0,6,1,4,2,3],
         [4,2,6,8,5,3,7,9,1],
         [7,1,3,9,2,4,8,5,6],
         [9,6,1,5,3,7,2,0,4],
         [2,8,7,4,1,9,6,3,5],
         [3,4,5,2,8,6,1,7,9]],
      clues = 75, attempts = 0, removableCells = [(6, 8), (3, 4)], rnd = 0\<rparr>"

text \<open>A full grid that breaks every rule.\<close>

definition allOnes :: grid where
  "allOnes = replicate 9 (replicate 9 1)"

text \<open>A grid without conflicting cells and without solution: no digit fits cell (0, 8).\<close>

definition stuckGrid :: grid where
  "stuckGrid =
     [[1,2,3,4,5,6,7,8,0],
      [0,0,0,0,0,0,0,0,9],
      [0,0,0,0,0,0,0,0,0],
      [0,0,0,0,0,0,0,0,0],
      [0,0,0,0,0,0,0,0,0],
      [0,0,0,0,0,0,0,0,0],
      [0,0,0,0,0,0,0,0,0],
      [0,0,0,0,0,0,0,0,0],
      [0,0,0,0,0,0,0,0,0]]"

text \<open>The digits in ascending order, as one possible outcome of every shuffle.\<close>

definition ascending :: "nat \<Rightarrow> nat list" where
  "ascending k = [1, 2, 3, 4, 5, 6, 7, 8, 9]"

section \<open>Basic facts about grids\<close>

lemma bindE_Inr [simp]: "bindE (Inr x) f = f x"
  by (simp add: bindE_def)

lemma bindE_Inl [simp]: "bindE (Inl e) f = Inl e"
  by (simp add: bindE_def)

lemma bindE_eq_Inr: "bindE m f = Inr y \<longleftrightarrow> (\<exists>x. m = Inr x \<and> f x = Inr y)"
  by (cases m) simp_all

lemma set_cells9: "set cells9 = {0..<9} \<times> {0..<9}"
  by (auto simp: cells9_def)

lemma distinct_cells9: "distinct cells9"
  by code_simp

lemma in_cells9 [simp]: "(r, c) \<in> set cells9 \<longleftrightarrow> r < 9 \<and> c < 9"
  by (simp add: set_cells9)

lemma set_offsets3: "set offsets3 = {0..<3} \<times> {0..<3}"
  by (auto simp: offsets3_def)

lemma wf_gridD: "wf_grid b \<Longrightarrow> length b = 9" "wf_grid b \<Longrightarrow> r < 9 \<Longrightarrow> length (b ! r) = 9"
  by (auto simp: wf_grid_def list_all_length)

lemma cellAt_wf: "wf_grid b \<Longrightarrow> r < 9 \<Longrightarrow> c < 9 \<Longrightarrow> cellAt b r c = Inr (Some (b ! r ! c))"
  by (simp add: cellAt_def wf_gridD)

lemma wf_setCell: "wf_grid b \<Longrightarrow> wf_grid (setCell b r c v)"
  by (cases "r < 9") (auto simp: wf_grid_def setCell_def list_all_length nth_list_update)

lemma nth_setCell: "wf_grid b \<Longrightarrow> r < 9 \<Longrightarrow> c < 9 \<Longrightarrow> setCell b r c v ! r' ! c' = (if r' = r \<and> c' = c then v else b ! r' ! c')"
  by (auto simp: setCell_def wf_gridD nth_list_update)

lemma grid_eqI: 
  assumes "wf_grid a" "wf_grid b" "\<And>r c. r < 9 \<Longrightarrow> c < 9 \<Longrightarrow> a ! r ! c = b ! r ! c"
  shows "a = b"
proof (rule nth_equalityI)
  show "length a = length b" using assms by (simp add: wf_gridD)
  fix r assume "r < length a"
  then have r: "r < 9" using assms by (simp add: wf_gridD)
  show "a ! r = b ! r"
    by (rule nth_equalityI) (use r assms in \<open>simp_all add: wf_gridD\<close>)
qed

lemma units_facts:
  "list_all (\<lambda>u. length u = 9 \<and> distinct u \<and> list_all (\<lambda>p. p \<in> set cells9 \<and> list_all (\<lambda>q. sameUnit p q) u) u) unitCells"
  by code_simp

lemma row_unit: "r < 9 \<Longrightarrow> map (\<lambda>c. (r, c)) [0..<9] \<in> set unitCells"
  by (auto simp: unitCells_def)

lemma col_unit: "c < 9 \<Longrightarrow> map (\<lambda>r. (r, c)) [0..<9] \<in> set unitCells"
  by (auto simp: unitCells_def)

lemma box_unit: "k < 9 \<Longrightarrow> map (\<lambda>(i, j). (k div 3 * 3 + i, k mod 3 * 3 + j)) offsets3 \<in> set unitCells"
  by (auto simp: unitCells_def)

lemma in_box_unit:
  assumes "r < 9" "c < 9" "k = r div 3 * 3 + c div 3"
  shows "(r, c) \<in> set (map (\<lambda>(i, j). (k div 3 * 3 + i, k mod 3 * 3 + j)) offsets3)"
proof -
  have c3: "c div 3 < 3" using assms by simp
  have kd: "k div 3 = r div 3" using assms c3 by simp
  have km: "k mod 3 = c div 3" using assms c3 by simp
  have "(r, c) = (\<lambda>(i, j). (k div 3 * 3 + i, k mod 3 * 3 + j)) (r mod 3, c mod 3)"
    by (simp add: kd km)
  moreover have "(r mod 3, c mod 3) \<in> set offsets3" by (simp add: set_offsets3)
  ultimately show ?thesis by (metis (no_types, lifting) image_eqI set_map)
qed

lemma units_cover:
  assumes "r < 9" "c < 9" "r' < 9" "c' < 9" "sameUnit (r, c) (r', c')"
  shows "\<exists>u \<in> set unitCells. (r, c) \<in> set u \<and> (r', c') \<in> set u"
proof -
  consider "r = r'" | "c = c'" | "r div 3 = r' div 3 \<and> c div 3 = c' div 3"
    using assms(5) by (auto simp: sameUnit_def)
  then show ?thesis
  proof cases
    case 1
    with assms row_unit[of r] show ?thesis by (intro bexI[of _ "map (\<lambda>c. (r, c)) [0..<9]"]) auto
  next
    case 2
    with assms col_unit[of c] show ?thesis by (intro bexI[of _ "map (\<lambda>r. (r, c)) [0..<9]"]) auto
  next
    case 3
    define k where "k = r div 3 * 3 + c div 3"
    have k': "k = r' div 3 * 3 + c' div 3" using 3 k_def by simp
    have "r div 3 < 3" "c div 3 < 3" using assms by simp_all
    then have "k < 9" unfolding k_def by linarith
    with box_unit[of k] in_box_unit[OF assms(1,2) k_def] in_box_unit[OF assms(3,4) k'] show ?thesis
      by blast
  qed
qed

section \<open>The solver keeps the cells it did not fill\<close>

text \<open>
  By computation induction over \<open>backtrack\<close> and its loop: the loop at cell
  \<open>(row, col)\<close> writes to that cell only, and \<open>backtrack\<close> enters the loop at a cell
  that is empty. This holds in both modes and for every grid.
\<close>

lemma setCell_other: "(r, c) \<noteq> (row, col) \<Longrightarrow> setCell b row col v ! r ! c = b ! r ! c"
proof (cases "r = row")
  case False
  then show ?thesis by (simp add: setCell_def)
next
  case True
  assume "(r, c) \<noteq> (row, col)"
  with True have c: "c \<noteq> col" by simp
  show ?thesis
  proof (cases "row < length b")
    case True
    with c \<open>r = row\<close> show ?thesis by (simp add: setCell_def)
  next
    case False
    with \<open>r = row\<close> show ?thesis by (simp add: setCell_def list_update_beyond)
  qed
qed

lemma firstEmpty_Some:
  "firstEmpty b ps = Inr (Some (row, col)) \<Longrightarrow> cellAt b row col = Inr (Some 0) \<and> (row, col) \<in> set ps"
  by (induction b ps rule: firstEmpty.induct) (auto simp: bindE_eq_Inr split: if_splits)

lemma cellAt_Some: "cellAt b row col = Inr (Some v) \<Longrightarrow> row < length b \<and> col < length (b ! row) \<and> b ! row ! col = v"
  by (auto simp: cellAt_def split: if_splits)

lemma frame:
  shows "backtrack shuffle solutions fuel s = Inr (found, s') \<Longrightarrow> boardOf s ! r ! c \<noteq> 0 \<Longrightarrow> boardOf s' ! r ! c = boardOf s ! r ! c"
  and "tryNums shuffle solutions fuel row col nums s = Inr (found, s') \<Longrightarrow> (r, c) \<noteq> (row, col) \<Longrightarrow> boardOf s ! r ! c \<noteq> 0 \<Longrightarrow> boardOf s' ! r ! c = boardOf s ! r ! c"
proof (induction shuffle solutions fuel s and shuffle solutions fuel row col nums s arbitrary: found s' and found s' rule: backtrack_tryNums.induct)
  case (1 shuffle solutions s)
  then show ?case by simp
next
  case (2 shuffle solutions fuel s)
  from "2.prems"(1) obtain e where e: "firstEmpty (boardOf s) cells9 = Inr e" by (auto simp: bindE_eq_Inr)
  show ?case
  proof (cases e)
    case None
    with "2.prems" e show ?thesis by (auto split: if_splits)
  next
    case (Some p)
    obtain row col where p: "p = (row, col)" by (cases p)
    from firstEmpty_Some e Some p have "cellAt (boardOf s) row col = Inr (Some 0)" by blast
    then have "boardOf s ! row ! col = 0" using cellAt_Some by blast
    with "2.prems"(2) have ne: "(r, c) \<noteq> (row, col)" by auto
    from "2.prems"(1) e Some p have "tryNums shuffle solutions fuel row col (shuffle (tick s)) (s\<lparr>tick := Suc (tick s)\<rparr>) = Inr (found, s')" by simp
    from "2.IH"[OF this ne] "2.prems"(2) show ?thesis by simp
  qed
next
  case (3 shuffle solutions fuel row col s)
  then show ?case by auto
next
  case (4 shuffle solutions fuel row col num nums s)
  from "4.prems"(1) obtain valid where v: "isValid (boardOf s) row col num = Inr valid" by (auto simp: bindE_eq_Inr)
  show ?case
  proof (cases valid)
    case False
    with "4.prems" v "4.IH"(5)[of valid found s'] show ?thesis by simp
  next
    case True
    let ?s0 = "s\<lparr>boardOf := setCell (boardOf s) row col num\<rparr>"
    from "4.prems"(1) v True obtain f1 s1 where b1: "backtrack shuffle solutions fuel ?s0 = Inr (f1, s1)"
      by (auto simp: bindE_eq_Inr)
    have "boardOf ?s0 ! r ! c = boardOf s ! r ! c" using "4.prems"(2) by (simp add: setCell_other)
    with "4.IH"(1)[OF True b1] "4.prems"(3) have k1: "boardOf s1 ! r ! c = boardOf s ! r ! c" by simp
    have k2: "setCell (boardOf s1) row col 0 ! r ! c = boardOf s ! r ! c" using k1 "4.prems"(2) by (simp add: setCell_other)
    show ?thesis
    proof (cases "solutions = 1")
      case one: True
      show ?thesis
      proof (cases f1)
        case True
        with "4.prems"(1) v \<open>valid\<close> b1 one k1 show ?thesis by simp
      next
        case False
        with "4.prems"(1) v \<open>valid\<close> b1 one
        have "tryNums shuffle solutions fuel row col nums (s1\<lparr>boardOf := setCell (boardOf s1) row col 0\<rparr>) = Inr (found, s')"
          by simp
        from "4.IH"(2)[OF \<open>valid\<close> one False this "4.prems"(2)] k2 "4.prems"(3) show ?thesis by simp
      qed
    next
      case many: False
      show ?thesis
      proof (cases f1)
        case False
        with "4.prems"(1) v \<open>valid\<close> b1 many
        have "tryNums shuffle solutions fuel row col nums (s1\<lparr>boardOf := setCell (boardOf s1) row col 0\<rparr>) = Inr (found, s')"
          by simp
        from "4.IH"(4)[OF \<open>valid\<close> many False this "4.prems"(2)] k2 "4.prems"(3) show ?thesis by simp
      next
        case True
        show ?thesis
        proof (cases "solutions \<le> Suc (count s1)")
          case stop: True
          with "4.prems"(1) v \<open>valid\<close> b1 many True k1 show ?thesis by auto
        next
          case go: False
          with "4.prems"(1) v \<open>valid\<close> b1 many True
          have "tryNums shuffle solutions fuel row col nums
                  (s1\<lparr>count := Suc (count s1), boardOf := setCell (boardOf s1) row col 0\<rparr>) = Inr (found, s')"
            by simp
          from "4.IH"(3)[OF \<open>valid\<close> many True go this "4.prems"(2)] k2 "4.prems"(3) show ?thesis by simp
        qed
      qed
    qed
  qed
qed

section \<open>isValid and valid grids\<close>

lemma clues_ok_iff:
  "clues_ok b \<longleftrightarrow> wf_grid b \<and>
     (\<forall>r<9. \<forall>c<9. b ! r ! c \<le> 9 \<and>
        (b ! r ! c \<noteq> 0 \<longrightarrow> (\<forall>r'<9. \<forall>c'<9. (r', c') \<noteq> (r, c) \<and> sameUnit (r, c) (r', c') \<longrightarrow> b ! r' ! c' \<noteq> b ! r ! c)))"
  unfolding clues_ok_def list_all_iff by (auto simp: set_cells9)

lemma extends_iff: "extends b s \<longleftrightarrow> (\<forall>r<9. \<forall>c<9. b ! r ! c \<noteq> 0 \<longrightarrow> s ! r ! c = b ! r ! c)"
  unfolding extends_def list_all_iff by (auto simp: set_cells9)

lemma isValid_lines_wf:
  "wf_grid b \<Longrightarrow> r < 9 \<Longrightarrow> c < 9 \<Longrightarrow> set is \<subseteq> {0..<9} \<Longrightarrow>
   isValid_lines b r c n is = Inr (\<forall>i\<in>set is. b ! r ! i \<noteq> n \<and> b ! i ! c \<noteq> n)"
  by (induction "is") (auto simp: cellAt_wf)

lemma isValid_box_wf:
  "wf_grid b \<Longrightarrow> sr \<le> 6 \<Longrightarrow> sc \<le> 6 \<Longrightarrow> set ps \<subseteq> {0..<3} \<times> {0..<3} \<Longrightarrow>
   isValid_box b sr sc n ps = Inr (\<forall>(i, j)\<in>set ps. b ! (sr + i) ! (sc + j) \<noteq> n)"
  by (induction ps) (auto simp: cellAt_wf)

lemma safe_loops:
  assumes "r < 9" "c < 9"
  shows "(\<forall>i\<in>set [0..<9]. b ! r ! i \<noteq> n \<and> b ! i ! c \<noteq> n) \<and>
         (\<forall>(i, j)\<in>set offsets3. b ! (r div 3 * 3 + i) ! (c div 3 * 3 + j) \<noteq> n)
         \<longleftrightarrow> safe b r c n"
    (is "?L \<and> ?B \<longleftrightarrow> _")
proof
  assume lb: "?L \<and> ?B"
  show "safe b r c n"
    unfolding safe_def
  proof (intro allI impI)
    fix r' c' assume r': "r' < 9" and c': "c' < 9" and su: "sameUnit (r, c) (r', c')"
    consider "r = r'" | "c = c'" | "r div 3 = r' div 3 \<and> c div 3 = c' div 3"
      using su by (auto simp: sameUnit_def)
    then show "b ! r' ! c' \<noteq> n"
    proof cases
      case 1 with lb c' show ?thesis by auto
    next
      case 2 with lb r' show ?thesis by auto
    next
      case 3
      then have eq: "r' = r div 3 * 3 + r' mod 3" "c' = c div 3 * 3 + c' mod 3"
        by (metis div_mult_mod_eq)+
      have "(r' mod 3, c' mod 3) \<in> set offsets3" by (simp add: set_offsets3)
      with lb have "b ! (r div 3 * 3 + r' mod 3) ! (c div 3 * 3 + c' mod 3) \<noteq> n" by fastforce
      with eq show ?thesis by simp
    qed
  qed
next
  assume s: "safe b r c n"
  have "?L" using s assms by (auto simp: safe_def sameUnit_def)
  moreover have "?B"
  proof (clarsimp simp: set_offsets3)
    fix i j :: nat assume i: "i < 3" and j: "j < 3" and eq: "n = b ! (r div 3 * 3 + i) ! (c div 3 * 3 + j)"
    have "r div 3 < 3" "c div 3 < 3" using assms by simp_all
    then have "r div 3 * 3 + i < 9" "c div 3 * 3 + j < 9" using i j by linarith+
    moreover have "sameUnit (r, c) (r div 3 * 3 + i, c div 3 * 3 + j)"
      using i j by (simp add: sameUnit_def)
    ultimately show False using s eq by (auto simp: safe_def)
  qed
  ultimately show "?L \<and> ?B" ..
qed

lemma isValid_wf:
  assumes "wf_grid b" "r < 9" "c < 9"
  shows "isValid b r c n = Inr (safe b r c n)"
proof -
  have l: "isValid_lines b r c n [0..<9] = Inr (\<forall>i\<in>set [0..<9]. b ! r ! i \<noteq> n \<and> b ! i ! c \<noteq> n)"
    using assms by (intro isValid_lines_wf) auto
  have bx: "isValid_box b (r div 3 * 3) (c div 3 * 3) n offsets3 =
              Inr (\<forall>(i, j)\<in>set offsets3. b ! (r div 3 * 3 + i) ! (c div 3 * 3 + j) \<noteq> n)"
    using assms by (intro isValid_box_wf) (auto simp: set_offsets3)
  show ?thesis
    using safe_loops[OF assms(2,3), of b n] by (auto simp: isValid_def l bx)
qed

lemma distinct_count_list1: "distinct xs \<Longrightarrow> x \<in> set xs \<Longrightarrow> count_list xs x = 1"
  by (induction xs) auto

lemma unit_props:
  assumes "u \<in> set unitCells"
  shows "length u = 9" "distinct u" "\<And>r c. (r, c) \<in> set u \<Longrightarrow> r < 9 \<and> c < 9"
    "\<And>p q. p \<in> set u \<Longrightarrow> q \<in> set u \<Longrightarrow> sameUnit p q"
  using units_facts assms unfolding list_all_iff by (fastforce simp: set_cells9)+

lemma valid_grid_iff: "valid_grid b \<longleftrightarrow> clues_ok b \<and> full b"
proof
  assume v: "valid_grid b"
  then have wf: "wf_grid b" by (simp add: valid_grid_def)
  have unit: "set (map (\<lambda>(r, c). b ! r ! c) u) = {1..9} \<and> distinct (map (\<lambda>(r, c). b ! r ! c) u)"
    if u: "u \<in> set unitCells" for u
  proof -
    let ?vs = "map (\<lambda>(r, c). b ! r ! c) u"
    have len: "length ?vs = 9" using unit_props(1)[OF u] by simp
    have cnt: "\<And>d. d \<in> {1..9} \<Longrightarrow> count_list ?vs d = 1"
      using v u by (auto simp: valid_grid_def list_all_iff)
    have sub: "{1..9} \<subseteq> set ?vs"
    proof
      fix d :: nat assume "d \<in> {1..9}"
      then have "count_list ?vs d \<noteq> 0" using cnt by simp
      then show "d \<in> set ?vs" using count_list_0_iff by metis
    qed
    have "card (set ?vs) \<le> 9" using card_length[of ?vs] len by simp
    then have eq: "{1..9} = set ?vs"
      by (intro card_seteq[OF _ sub]) simp_all
    have "card (set ?vs) = 9" unfolding eq[symmetric] by simp
    then have "card (set ?vs) = length ?vs" using len by simp
    then show ?thesis using eq card_distinct by blast
  qed
  have rng: "b ! r ! c \<in> {1..9}" if "r < 9" "c < 9" for r c
  proof -
    let ?u = "map (\<lambda>c. (r, c)) [0..<9]"
    have "(r, c) \<in> set ?u" using that by simp
    then have "b ! r ! c \<in> set (map (\<lambda>(r, c). b ! r ! c) ?u)" by force
    with unit[OF row_unit[OF that(1)]] show ?thesis by simp
  qed
  have cons: "b ! r' ! c' \<noteq> b ! r ! c"
    if "r < 9" "c < 9" "r' < 9" "c' < 9" "(r', c') \<noteq> (r, c)" "sameUnit (r, c) (r', c')" for r c r' c'
  proof -
    from units_cover[OF that(1-4,6)] obtain u where u: "u \<in> set unitCells" "(r, c) \<in> set u" "(r', c') \<in> set u"
      by blast
    from unit[OF u(1)] have "inj_on (\<lambda>(r, c). b ! r ! c) (set u)" by (simp add: distinct_map)
    from inj_onD[OF this _ u(3,2)] that(5) show ?thesis by auto
  qed
  show "clues_ok b \<and> full b"
    unfolding clues_ok_iff full_def using wf rng cons by force
next
  assume a: "clues_ok b \<and> full b"
  then have wf: "wf_grid b" by (simp add: clues_ok_iff)
  have "count_list (map (\<lambda>(r, c). b ! r ! c) u) d = 1" if u: "u \<in> set unitCells" and d: "d \<in> {1..9}" for u d
  proof -
    let ?f = "\<lambda>(r, c). b ! r ! c"
    let ?vs = "map ?f u"
    have inj: "inj_on ?f (set u)"
    proof (rule inj_onI)
      fix p q assume p: "p \<in> set u" and q: "q \<in> set u" and eq: "?f p = ?f q"
      obtain r c where pp: "p = (r, c)" by (cases p)
      obtain r' c' where qq: "q = (r', c')" by (cases q)
      have in9: "r < 9" "c < 9" "r' < 9" "c' < 9" using unit_props(3)[OF u] p q pp qq by blast+
      have su: "sameUnit (r, c) (r', c')" using unit_props(4)[OF u p q] pp qq by simp
      have nz: "b ! r ! c \<noteq> 0" using a in9 by (simp add: full_def)
      show "p = q"
      proof (rule ccontr)
        assume "p \<noteq> q"
        then have "(r', c') \<noteq> (r, c)" using pp qq by auto
        with a in9 su nz have "b ! r' ! c' \<noteq> b ! r ! c" unfolding clues_ok_iff by blast
        with eq pp qq show False by simp
      qed
    qed
    have dist: "distinct ?vs" using inj unit_props(2)[OF u] by (simp add: distinct_map)
    have sub: "set ?vs \<subseteq> {1..9}"
    proof
      fix v assume "v \<in> set ?vs"
      then obtain r c where rc: "(r, c) \<in> set u" "v = b ! r ! c" by auto
      with unit_props(3)[OF u] have "r < 9" "c < 9" by blast+
      with a rc show "v \<in> {1..9}" unfolding clues_ok_iff full_def
        by (metis atLeastAtMost_iff One_nat_def Suc_leI not_gr_zero)
    qed
    have "card (set ?vs) = length ?vs" by (rule distinct_card[OF dist])
    then have "card (set ?vs) = 9" using unit_props(1)[OF u] by simp
    then have "set ?vs = {1..9}" by (intro card_seteq[OF _ sub]) simp_all
    with d dist show ?thesis by (intro distinct_count_list1) simp_all
  qed
  with wf show "valid_grid b" by (simp add: valid_grid_def list_all_iff)
qed

section \<open>Empty cells and solutions\<close>

lemma emptyCells_card: "emptyCells b = card {(r, c). r < 9 \<and> c < 9 \<and> b ! r ! c = 0}"
proof -
  have "emptyCells b = card ({p. (\<lambda>(r, c). b ! r ! c = 0) p} \<inter> set cells9)"
    unfolding emptyCells_def by (rule distinct_length_filter[OF distinct_cells9])
  also have "{p. (\<lambda>(r, c). b ! r ! c = 0) p} \<inter> set cells9 = {(r, c). r < 9 \<and> c < 9 \<and> b ! r ! c = 0}"
    by (auto simp: set_cells9)
  finally show ?thesis .
qed

lemma finite_empties: "finite {(r, c). r < 9 \<and> c < 9 \<and> b ! r ! c = (0::nat)}"
  by (rule finite_subset[of _ "{0..<9} \<times> {0..<9}"]) auto

lemma emptyCells_fill:
  assumes "wf_grid b" "r < 9" "c < 9" "b ! r ! c = 0" "v \<noteq> 0"
  shows "Suc (emptyCells (setCell b r c v)) = emptyCells b"
proof -
  let ?E = "{(r, c). r < 9 \<and> c < 9 \<and> b ! r ! c = 0}"
  have "{(r', c'). r' < 9 \<and> c' < 9 \<and> setCell b r c v ! r' ! c' = 0} = ?E - {(r, c)}"
    using assms by (auto simp: nth_setCell)
  moreover have "(r, c) \<in> ?E" using assms by simp
  ultimately show ?thesis
    using card_Suc_Diff1[OF finite_empties[of b], of "(r, c)"] by (simp add: emptyCells_card)
qed

lemma emptyCells_clear:
  assumes "wf_grid b" "r < 9" "c < 9"
  shows "emptyCells (setCell b r c 0) \<le> Suc (emptyCells b)"
proof -
  let ?E = "{(r, c). r < 9 \<and> c < 9 \<and> b ! r ! c = 0}"
  have "{(r', c'). r' < 9 \<and> c' < 9 \<and> setCell b r c 0 ! r' ! c' = 0} = insert (r, c) ?E"
    using assms by (auto simp: nth_setCell)
  then show ?thesis
    using finite_empties[of b] by (simp add: emptyCells_card card_insert_if)
qed

lemma emptyCells_le: "emptyCells b \<le> 81"
proof -
  have "emptyCells b \<le> length cells9" unfolding emptyCells_def by (rule length_filter_le)
  also have "length cells9 = 81" by code_simp
  finally show ?thesis .
qed

lemma emptyCells_0_iff: "emptyCells b = 0 \<longleftrightarrow> full b"
  unfolding emptyCells_def full_def by (auto simp: filter_empty_conv set_cells9)

lemma firstEmpty_wf:
  "wf_grid b \<Longrightarrow> set ps \<subseteq> set cells9 \<Longrightarrow> firstEmpty b ps = Inr (find (\<lambda>(r, c). b ! r ! c = 0) ps)"
  by (induction ps) (auto simp: cellAt_wf)

lemma firstEmpty_cases:
  assumes "wf_grid b"
  obtains (none) "firstEmpty b cells9 = Inr None" "full b"
  | (some) r c where "firstEmpty b cells9 = Inr (Some (r, c))" "r < 9" "c < 9" "b ! r ! c = 0"
proof (cases "find (\<lambda>(r, c). b ! r ! c = 0) cells9")
  case None
  then have "full b" by (auto simp: find_None_iff full_def)
  with None firstEmpty_wf[OF assms, of cells9] none show ?thesis by simp
next
  case (Some p)
  obtain r c where p: "p = (r, c)" by (cases p)
  from Some p have "(r, c) \<in> set cells9 \<and> b ! r ! c = 0"
    by (auto simp: find_Some_iff dest: nth_mem)
  with Some p firstEmpty_wf[OF assms, of cells9] some show ?thesis by simp
qed

lemma sameUnit_refl [simp]: "sameUnit p p"
  by (simp add: sameUnit_def)

lemma sameUnit_sym: "sameUnit p q \<Longrightarrow> sameUnit q p"
  by (auto simp: sameUnit_def)

lemma safeD: "safe b r c d \<Longrightarrow> r' < 9 \<Longrightarrow> c' < 9 \<Longrightarrow> sameUnit (r, c) (r', c') \<Longrightarrow> b ! r' ! c' \<noteq> d"
  by (simp add: safe_def)

lemma safe_nonzero: "r < 9 \<Longrightarrow> c < 9 \<Longrightarrow> b ! r ! c = 0 \<Longrightarrow> safe b r c d \<Longrightarrow> d \<noteq> 0"
  using safeD[of b r c d r c] by auto

lemma clues_okD:
  assumes "clues_ok b" "r < 9" "c < 9"
  shows "b ! r ! c \<le> 9"
    and "b ! r ! c \<noteq> 0 \<Longrightarrow> r' < 9 \<Longrightarrow> c' < 9 \<Longrightarrow> (r', c') \<noteq> (r, c) \<Longrightarrow> sameUnit (r, c) (r', c') \<Longrightarrow> b ! r' ! c' \<noteq> b ! r ! c"
  using assms unfolding clues_ok_iff by blast+

lemma clues_okI:
  assumes "wf_grid b" "\<And>r c. r < 9 \<Longrightarrow> c < 9 \<Longrightarrow> b ! r ! c \<le> 9"
    "\<And>r c r' c'. r < 9 \<Longrightarrow> c < 9 \<Longrightarrow> r' < 9 \<Longrightarrow> c' < 9 \<Longrightarrow> b ! r ! c \<noteq> 0 \<Longrightarrow> (r', c') \<noteq> (r, c) \<Longrightarrow> sameUnit (r, c) (r', c') \<Longrightarrow> b ! r' ! c' \<noteq> b ! r ! c"
  shows "clues_ok b"
  unfolding clues_ok_iff using assms by blast

lemma extendsD: "extends b s \<Longrightarrow> r < 9 \<Longrightarrow> c < 9 \<Longrightarrow> b ! r ! c \<noteq> 0 \<Longrightarrow> s ! r ! c = b ! r ! c"
  by (simp add: extends_iff)

lemma fullD: "full b \<Longrightarrow> r < 9 \<Longrightarrow> c < 9 \<Longrightarrow> b ! r ! c \<noteq> 0"
  by (simp add: full_def)

lemma clues_ok_wf: "clues_ok b \<Longrightarrow> wf_grid b"
  by (simp add: clues_ok_iff)

lemma clues_ok_setCell:
  assumes "clues_ok b" "r < 9" "c < 9" "safe b r c d" "d \<le> 9"
  shows "clues_ok (setCell b r c d)"
proof (rule clues_okI)
  show "wf_grid (setCell b r c d)" using assms by (simp add: wf_setCell clues_ok_wf)
next
  fix r1 c1 :: nat assume "r1 < 9" "c1 < 9"
  then show "setCell b r c d ! r1 ! c1 \<le> 9"
    using assms clues_okD(1)[OF assms(1), of r1 c1] by (simp add: nth_setCell clues_ok_wf)
next
  fix r1 c1 r2 c2 :: nat
  assume in9: "r1 < 9" "c1 < 9" "r2 < 9" "c2 < 9"
    and nz: "setCell b r c d ! r1 ! c1 \<noteq> 0"
    and ne: "(r2, c2) \<noteq> (r1, c1)" and su: "sameUnit (r1, c1) (r2, c2)"
  have wf: "wf_grid b" using assms by (simp add: clues_ok_wf)
  show "setCell b r c d ! r2 ! c2 \<noteq> setCell b r c d ! r1 ! c1"
  proof (cases "(r1, c1) = (r, c)")
    case True
    with ne su have "(r2, c2) \<noteq> (r, c)" "sameUnit (r, c) (r2, c2)" by auto
    with safeD[OF assms(4) in9(3,4)] have "b ! r2 ! c2 \<noteq> d" by simp
    with True \<open>(r2, c2) \<noteq> (r, c)\<close> wf assms(2,3) show ?thesis by (auto simp: nth_setCell)
  next
    case False
    then have v1: "setCell b r c d ! r1 ! c1 = b ! r1 ! c1" using wf assms(2,3) by (auto simp: nth_setCell)
    show ?thesis
    proof (cases "(r2, c2) = (r, c)")
      case True
      with su have "sameUnit (r, c) (r1, c1)" using sameUnit_sym by blast
      with safeD[OF assms(4) in9(1,2)] have "b ! r1 ! c1 \<noteq> d" by simp
      with True v1 wf assms(2,3) show ?thesis by (auto simp: nth_setCell)
    next
      case False
      then have "setCell b r c d ! r2 ! c2 = b ! r2 ! c2" using wf assms(2,3) by (auto simp: nth_setCell)
      moreover have "b ! r2 ! c2 \<noteq> b ! r1 ! c1"
        using clues_okD(2)[OF assms(1) in9(1,2) _ in9(3,4) ne su] nz v1 by simp
      ultimately show ?thesis using v1 by simp
    qed
  qed
qed

lemma setCell_restore:
  assumes "wf_grid b" "r < 9" "c < 9" "b ! r ! c = v"
  shows "setCell (setCell b r c d) r c v = b"
  by (rule grid_eqI) (use assms in \<open>auto simp: wf_setCell nth_setCell\<close>)

lemma completions_iff: "s \<in> completions b \<longleftrightarrow> clues_ok s \<and> full s \<and> extends b s"
  by (simp add: completions_def valid_grid_iff)

lemma extends_fill:
  assumes "wf_grid b" "r < 9" "c < 9" "b ! r ! c = 0" "d \<noteq> 0"
  shows "extends (setCell b r c d) s \<longleftrightarrow> extends b s \<and> s ! r ! c = d"
proof
  assume e: "extends (setCell b r c d) s"
  have "s ! r ! c = d" using extendsD[OF e assms(2,3)] assms by (simp add: nth_setCell)
  moreover have "extends b s"
    unfolding extends_iff
  proof (intro allI impI)
    fix r' c' assume a: "r' < 9" "c' < 9" "b ! r' ! c' \<noteq> 0"
    with assms(4) have "(r', c') \<noteq> (r, c)" by auto
    with extendsD[OF e a(1,2)] a assms(1-3) show "s ! r' ! c' = b ! r' ! c'"
      by (auto simp: nth_setCell split: if_splits)
  qed
  ultimately show "extends b s \<and> s ! r ! c = d" by simp
next
  assume e: "extends b s \<and> s ! r ! c = d"
  show "extends (setCell b r c d) s"
    unfolding extends_iff
  proof (intro allI impI)
    fix r' c' assume a: "r' < 9" "c' < 9" "setCell b r c d ! r' ! c' \<noteq> 0"
    show "s ! r' ! c' = setCell b r c d ! r' ! c'"
    proof (cases "(r', c') = (r, c)")
      case True
      with e assms(1-3) show ?thesis by (simp add: nth_setCell)
    next
      case False
      with a assms(1-3) have "b ! r' ! c' \<noteq> 0" "setCell b r c d ! r' ! c' = b ! r' ! c'"
        by (auto simp: nth_setCell)
      with e a show ?thesis using extendsD by simp
    qed
  qed
qed

lemma completions_fill:
  assumes "wf_grid b" "r < 9" "c < 9" "b ! r ! c = 0" "d \<noteq> 0"
  shows "s \<in> completions (setCell b r c d) \<longleftrightarrow> s \<in> completions b \<and> s ! r ! c = d"
  unfolding completions_iff using extends_fill[OF assms] by auto

lemma completions_digit:
  assumes "s \<in> completions b" "r < 9" "c < 9"
  shows "s ! r ! c \<in> {1..9}"
proof -
  from assms have "s ! r ! c \<le> 9" "s ! r ! c \<noteq> 0"
    by (simp_all add: completions_iff clues_okD(1) fullD)
  then show ?thesis by simp
qed

lemma completions_split:
  assumes "wf_grid b" "r < 9" "c < 9" "b ! r ! c = 0"
  shows "completions b = (\<Union>d\<in>{1..9}. completions (setCell b r c d))"
proof (intro set_eqI iffI)
  fix s assume s: "s \<in> completions b"
  have d: "s ! r ! c \<in> {1..9}" using completions_digit[OF s assms(2,3)] .
  then have "s ! r ! c \<noteq> 0" by simp
  from completions_fill[OF assms this, of s] s have "s \<in> completions (setCell b r c (s ! r ! c))" by simp
  with d show "s \<in> (\<Union>d\<in>{1..9}. completions (setCell b r c d))" by blast
next
  fix s assume "s \<in> (\<Union>d\<in>{1..9}. completions (setCell b r c d))"
  then obtain d where d: "d \<in> {1..9}" "s \<in> completions (setCell b r c d)" by blast
  then have "d \<noteq> 0" by simp
  from completions_fill[OF assms this, of s] d show "s \<in> completions b" by simp
qed

lemma completions_disjoint:
  assumes "wf_grid b" "r < 9" "c < 9" "b ! r ! c = 0" "d \<noteq> d'" "d \<noteq> 0" "d' \<noteq> 0"
  shows "completions (setCell b r c d) \<inter> completions (setCell b r c d') = {}"
  using completions_fill[OF assms(1-4,6)] completions_fill[OF assms(1-4,7)] assms(5) by auto

lemma completions_unsafe:
  assumes "wf_grid b" "r < 9" "c < 9" "b ! r ! c = 0" "\<not> safe b r c d" "d \<noteq> 0"
  shows "completions (setCell b r c d) = {}"
proof (rule ccontr)
  assume "completions (setCell b r c d) \<noteq> {}"
  then obtain s where "s \<in> completions (setCell b r c d)" by blast
  with completions_fill[OF assms(1-4,6), of s] have s: "s \<in> completions b" "s ! r ! c = d" by simp_all
  from assms(5) obtain r' c' where p: "r' < 9" "c' < 9" "sameUnit (r, c) (r', c')" "b ! r' ! c' = d"
    by (auto simp: safe_def)
  with assms(4,6) have ne: "(r', c') \<noteq> (r, c)" by auto
  from s(1) have ok: "clues_ok s" and ex: "extends b s" by (simp_all add: completions_iff)
  have "s ! r' ! c' = d" using extendsD[OF ex p(1,2)] p(4) assms(6) by simp
  moreover have "s ! r' ! c' \<noteq> s ! r ! c"
    using clues_okD(2)[OF ok assms(2,3) _ p(1,2) ne p(3)] s(2) assms(6) by simp
  ultimately show False using s(2) by simp
qed

lemma completions_full:
  assumes "clues_ok b" "full b"
  shows "completions b = {b}"
proof (intro set_eqI iffI)
  fix s assume s: "s \<in> completions b"
  have "s = b"
  proof (rule grid_eqI)
    show "wf_grid s" using s by (simp add: completions_iff clues_ok_wf)
    show "wf_grid b" using assms by (simp add: clues_ok_wf)
    fix r c :: nat assume "r < 9" "c < 9"
    then show "s ! r ! c = b ! r ! c"
      using s assms(2) by (simp add: completions_iff extendsD fullD)
  qed
  then show "s \<in> {b}" by simp
next
  fix s assume "s \<in> {b}"
  then show "s \<in> completions b" using assms by (simp add: completions_iff extends_iff)
qed

lemma finite_grids: "finite {s. wf_grid s \<and> (\<forall>r<9. \<forall>c<9. s ! r ! c \<le> (9::nat))}"
proof -
  let ?A = "{row. set row \<subseteq> {..(9::nat)} \<and> length row = 9}"
  have fa: "finite ?A" by (rule finite_lists_length_eq) simp
  have "{s. wf_grid s \<and> (\<forall>r<9. \<forall>c<9. s ! r ! c \<le> 9)} \<subseteq> {s. set s \<subseteq> ?A \<and> length s = 9}"
  proof clarify
    fix s assume wf: "wf_grid s" and le: "\<forall>r<9. \<forall>c<9. s ! r ! c \<le> 9"
    have "row \<in> ?A" if "row \<in> set s" for row
    proof -
      from that obtain r where r: "r < length s" "row = s ! r" by (auto simp: in_set_conv_nth)
      then have r9: "r < 9" using wf by (simp add: wf_gridD)
      have "length row = 9" using r r9 wf by (simp add: wf_gridD)
      moreover have "set row \<subseteq> {..9}"
      proof
        fix v assume "v \<in> set row"
        then obtain c where "c < length row" "v = row ! c" by (auto simp: in_set_conv_nth)
        with le r r9 \<open>length row = 9\<close> show "v \<in> {..9}" by auto
      qed
      ultimately show ?thesis by simp
    qed
    then show "set s \<subseteq> ?A \<and> length s = 9" using wf by (auto simp: wf_gridD)
  qed
  then show ?thesis using finite_lists_length_eq[OF fa, of 9] by (rule finite_subset)
qed

lemma finite_completions: "finite (completions b)"
  by (rule finite_subset[OF _ finite_grids]) (auto simp: completions_iff clues_ok_iff)

section \<open>The search in counting mode\<close>

text \<open>
  The loop over the digits at an empty cell \<open>(r, c)\<close> of a board \<open>b\<close> adds up the
  solutions of the boards \<open>setCell b r c d\<close>, which are disjoint for different digits,
  until the limit is reached. The proof is by induction on the recursion budget, with
  an inner induction on the digits still to try.
\<close>

lemma countSpec_mono:
  "countSpec L t T res \<Longrightarrow> boardOf t = boardOf s \<Longrightarrow> count t + card T = count s + card S \<Longrightarrow>
   T \<subseteq> S \<Longrightarrow> countSpec L s S res"
  unfolding countSpec_def by auto

lemma count_tryNums:
  assumes L: "2 \<le> L"
    and bt: "\<And>s. clues_ok (boardOf s) \<Longrightarrow> emptyCells (boardOf s) < fuel \<Longrightarrow> count s < L \<Longrightarrow>
               countSpec L s (completions (boardOf s)) (backtrack shuffle L fuel s)"
    and b: "clues_ok b" "r < 9" "c < 9" "b ! r ! c = 0" "emptyCells b \<le> fuel"
  shows "distinct nums \<Longrightarrow> set nums \<subseteq> {1..9} \<Longrightarrow> boardOf s = b \<Longrightarrow> count s < L \<Longrightarrow>
         countSpec L s (\<Union>d\<in>set nums. completions (setCell b r c d)) (tryNums shuffle L fuel r c nums s)"
proof (induction nums arbitrary: s)
  case Nil
  then show ?case using L by (simp add: countSpec_def)
next
  case (Cons num nums)
  have wf: "wf_grid b" using b(1) by (rule clues_ok_wf)
  let ?Sn = "completions (setCell b r c num)"
  let ?U' = "\<Union>d\<in>set nums. completions (setCell b r c d)"
  let ?U = "\<Union>d\<in>set (num # nums). completions (setCell b r c d)"
  have num: "num \<noteq> 0" "num \<le> 9" "num \<notin> set nums" using Cons.prems by auto
  have U: "?U = ?Sn \<union> ?U'" by simp
  have disj: "?Sn \<inter> ?U' = {}"
  proof -
    have "?Sn \<inter> completions (setCell b r c d) = {}" if "d \<in> set nums" for d
    proof -
      from that Cons.prems(2) num(3) have "d \<noteq> 0" "num \<noteq> d" by auto
      with completions_disjoint[OF wf b(2-4), of num d] num(1) show ?thesis by simp
    qed
    then show ?thesis by blast
  qed
  have finU': "finite ?U'" by (intro finite_UN_I) (simp_all add: finite_completions)
  have cardU: "card ?U = card ?Sn + card ?U'"
    unfolding U using card_Un_disjoint[OF finite_completions finU' disj] .
  have L1: "L \<noteq> 1" using L by simp
  have valid: "isValid (boardOf s) r c num = Inr (safe b r c num)"
    using Cons.prems(3) wf b(2,3) by (simp add: isValid_wf)
  show ?case
  proof (cases "safe b r c num")
    case False
    then have "?Sn = {}" using completions_unsafe[OF wf b(2-4) _ num(1)] by simp
    then have "?U = ?U'" using U by simp
    moreover have "tryNums shuffle L fuel r c (num # nums) s = tryNums shuffle L fuel r c nums s"
      using valid False by simp
    moreover have "countSpec L s ?U' (tryNums shuffle L fuel r c nums s)"
      using Cons.IH Cons.prems by simp
    ultimately show ?thesis by simp
  next
    case True
    let ?s0 = "s\<lparr>boardOf := setCell b r c num\<rparr>"
    have ok0: "clues_ok (boardOf ?s0)" using clues_ok_setCell[OF b(1-3) True num(2)] by simp
    have e0: "Suc (emptyCells (setCell b r c num)) = emptyCells b"
      using emptyCells_fill[OF wf b(2-4) num(1)] .
    then have "emptyCells (boardOf ?s0) < fuel" using b(5) by simp
    from bt[OF ok0 this] Cons.prems(4)
    have "countSpec L ?s0 ?Sn (backtrack shuffle L fuel ?s0)" by simp
    then obtain s1 where s1: "backtrack shuffle L fuel ?s0 = Inr (L \<le> count s + card ?Sn, s1)"
      and s1': "count s + card ?Sn < L \<Longrightarrow> boardOf s1 = setCell b r c num \<and> count s1 = count s + card ?Sn"
               "L \<le> count s + card ?Sn \<Longrightarrow> count s1 = L + emptyCells (setCell b r c num) \<and> boardOf s1 \<in> ?Sn"
      by (auto simp: countSpec_def)
    show ?thesis
    proof (cases "count s + card ?Sn < L")
      case less: True
      let ?s2 = "s1\<lparr>boardOf := setCell (boardOf s1) r c 0\<rparr>"
      from less s1' have b1: "boardOf s1 = setCell b r c num" and c1: "count s1 = count s + card ?Sn" by simp_all
      have b2: "boardOf ?s2 = b" using b1 setCell_restore[OF wf b(2-4)] by simp
      have c2: "count ?s2 < L" using c1 less by simp
      have step: "tryNums shuffle L fuel r c (num # nums) s = tryNums shuffle L fuel r c nums ?s2"
        using valid True s1 less L1 Cons.prems(3) by simp
      have "countSpec L ?s2 ?U' (tryNums shuffle L fuel r c nums ?s2)"
        using Cons.IH[OF _ _ b2 c2] Cons.prems by simp
      then show ?thesis
        unfolding step
      proof (rule countSpec_mono)
        show "boardOf ?s2 = boardOf s" using b2 Cons.prems(3) by simp
        show "count ?s2 + card ?U' = count s + card ?U" using c1 cardU by simp
        show "?U' \<subseteq> ?U" by auto
      qed
    next
      case ge: False
      from ge s1' have c1: "count s1 = L + emptyCells (setCell b r c num)" and b1: "boardOf s1 \<in> ?Sn" by simp_all
      have step: "tryNums shuffle L fuel r c (num # nums) s = Inr (True, s1\<lparr>count := Suc (count s1)\<rparr>)"
        using valid True s1 ge L1 Cons.prems(3) c1 by simp
      have "L \<le> count s + card ?U" using ge cardU by simp
      moreover have "Suc (count s1) = L + emptyCells (boardOf s)" using c1 e0 Cons.prems(3) by simp
      moreover have "boardOf s1 \<in> ?U" using b1 U by blast
      ultimately show ?thesis unfolding step countSpec_def by simp
    qed
  qed
qed

lemma count_backtrack:
  assumes L: "2 \<le> L" and sh: "perm_orders shuffle"
  shows "clues_ok (boardOf s) \<Longrightarrow> emptyCells (boardOf s) < fuel \<Longrightarrow> count s < L \<Longrightarrow>
         countSpec L s (completions (boardOf s)) (backtrack shuffle L fuel s)"
proof (induction fuel arbitrary: s)
  case 0
  then show ?case by simp
next
  case (Suc fuel)
  let ?b = "boardOf s"
  have wf: "wf_grid ?b" using Suc.prems(1) by (rule clues_ok_wf)
  have L1: "L \<noteq> 1" using L by simp
  from wf show ?case
  proof (cases rule: firstEmpty_cases)
    case none
    have S: "completions ?b = {?b}" using completions_full[OF Suc.prems(1) none(2)] .
    have e: "emptyCells ?b = 0" using none(2) by (simp add: emptyCells_0_iff)
    have "backtrack shuffle L (Suc fuel) s = Inr (L \<le> Suc (count s), s\<lparr>count := Suc (count s)\<rparr>)"
      using none(1) L1 by simp
    then show ?thesis
      unfolding countSpec_def S using e Suc.prems(3) by auto
  next
    case (some r c)
    let ?s = "s\<lparr>tick := Suc (tick s)\<rparr>"
    have nums: "distinct (shuffle (tick s))" "set (shuffle (tick s)) = {1..9}"
      using sh by (simp_all add: perm_orders_def)
    have bt: "backtrack shuffle L (Suc fuel) s = tryNums shuffle L fuel r c (shuffle (tick s)) ?s"
      using some(1) by simp
    have "countSpec L ?s (\<Union>d\<in>set (shuffle (tick s)). completions (setCell ?b r c d))
            (tryNums shuffle L fuel r c (shuffle (tick s)) ?s)"
    proof (rule count_tryNums[OF L _ Suc.prems(1) some(2-4)])
      show "emptyCells ?b \<le> fuel" using Suc.prems(2) by simp
      show "distinct (shuffle (tick s))" by (rule nums)
      show "set (shuffle (tick s)) \<subseteq> {1..9}" using nums by simp
      show "boardOf ?s = ?b" by simp
      show "count ?s < L" using Suc.prems(3) by simp
      show "countSpec L s' (completions (boardOf s')) (backtrack shuffle L fuel s')"
        if "clues_ok (boardOf s')" "emptyCells (boardOf s') < fuel" "count s' < L" for s'
        using Suc.IH[OF that] .
    qed
    moreover have "(\<Union>d\<in>set (shuffle (tick s)). completions (setCell ?b r c d)) = completions ?b"
      using completions_split[OF wf some(2-4)] nums(2) by simp
    ultimately have "countSpec L ?s (completions ?b) (backtrack shuffle L (Suc fuel) s)"
      using bt by simp
    then show ?thesis by (rule countSpec_mono) simp_all
  qed
qed

section \<open>The search for one solution; every search returns\<close>

text \<open>
  With \<open>solutions = 1\<close> the search returns true exactly when the board has a solution,
  and then leaves the board on one. On every well-formed board, in both modes and for
  every outcome of the shuffles, the search returns without an error as soon as the
  budget exceeds the number of empty cells, hence for every budget above 81.
\<close>

lemma findSpec_mono:
  "findSpec t S res \<Longrightarrow> boardOf t = boardOf s \<Longrightarrow> count t = count s \<Longrightarrow> findSpec s S res"
  unfolding findSpec_def by auto

lemma findSpec_found:
  "boardOf s' \<in> S \<Longrightarrow> count s' = count s \<Longrightarrow> findSpec s S (Inr (True, s'))"
  unfolding findSpec_def by auto

lemma find_tryNums:
  assumes bt: "\<And>s. clues_ok (boardOf s) \<Longrightarrow> emptyCells (boardOf s) < fuel \<Longrightarrow>
               findSpec s (completions (boardOf s)) (backtrack shuffle 1 fuel s)"
    and b: "clues_ok b" "r < 9" "c < 9" "b ! r ! c = 0" "emptyCells b \<le> fuel"
  shows "set nums \<subseteq> {1..9} \<Longrightarrow> boardOf s = b \<Longrightarrow>
         findSpec s (\<Union>d\<in>set nums. completions (setCell b r c d)) (tryNums shuffle 1 fuel r c nums s)"
proof (induction nums arbitrary: s)
  case Nil
  then show ?case by (simp add: findSpec_def)
next
  case (Cons num nums)
  have wf: "wf_grid b" using b(1) by (rule clues_ok_wf)
  let ?Sn = "completions (setCell b r c num)"
  let ?U' = "\<Union>d\<in>set nums. completions (setCell b r c d)"
  let ?U = "\<Union>d\<in>set (num # nums). completions (setCell b r c d)"
  have num: "num \<noteq> 0" "num \<le> 9" using Cons.prems by auto
  have U: "?U = ?Sn \<union> ?U'" by simp
  have valid: "isValid (boardOf s) r c num = Inr (safe b r c num)"
    using Cons.prems(2) wf b(2,3) by (simp add: isValid_wf)
  show ?case
  proof (cases "safe b r c num")
    case False
    then have "?Sn = {}" using completions_unsafe[OF wf b(2-4) _ num(1)] by simp
    then have "?U = ?U'" using U by simp
    moreover have "tryNums shuffle 1 fuel r c (num # nums) s = tryNums shuffle 1 fuel r c nums s"
      using valid False by simp
    moreover have "findSpec s ?U' (tryNums shuffle 1 fuel r c nums s)"
      using Cons.IH Cons.prems by simp
    ultimately show ?thesis by simp
  next
    case True
    let ?s0 = "s\<lparr>boardOf := setCell b r c num\<rparr>"
    have ok0: "clues_ok (boardOf ?s0)" using clues_ok_setCell[OF b(1-3) True num(2)] by simp
    have "Suc (emptyCells (setCell b r c num)) = emptyCells b"
      using emptyCells_fill[OF wf b(2-4) num(1)] .
    then have "emptyCells (boardOf ?s0) < fuel" using b(5) by simp
    from bt[OF ok0 this] have "findSpec ?s0 ?Sn (backtrack shuffle 1 fuel ?s0)" by simp
    then obtain s1 where s1: "backtrack shuffle 1 fuel ?s0 = Inr (?Sn \<noteq> {}, s1)"
      and c1: "count s1 = count s"
      and s1': "?Sn = {} \<Longrightarrow> boardOf s1 = setCell b r c num" "?Sn \<noteq> {} \<Longrightarrow> boardOf s1 \<in> ?Sn"
      by (auto simp: findSpec_def)
    show ?thesis
    proof (cases "?Sn = {}")
      case empty: True
      let ?s2 = "s1\<lparr>boardOf := setCell (boardOf s1) r c 0\<rparr>"
      have b2: "boardOf ?s2 = b" using s1'(1)[OF empty] setCell_restore[OF wf b(2-4)] by simp
      have step: "tryNums shuffle 1 fuel r c (num # nums) s = tryNums shuffle 1 fuel r c nums ?s2"
        using valid True s1 empty Cons.prems(2) by simp
      have "findSpec ?s2 ?U' (tryNums shuffle 1 fuel r c nums ?s2)"
        using Cons.IH[OF _ b2] Cons.prems by simp
      then have "findSpec s ?U' (tryNums shuffle 1 fuel r c nums ?s2)"
        by (rule findSpec_mono) (use b2 c1 Cons.prems(2) in simp_all)
      moreover have "?U = ?U'" using U empty by simp
      ultimately show ?thesis unfolding step by simp
    next
      case nonempty: False
      have step: "tryNums shuffle 1 fuel r c (num # nums) s = Inr (True, s1)"
        using valid True s1 nonempty Cons.prems(2) by simp
      have "boardOf s1 \<in> ?U" using s1'(2)[OF nonempty] U by blast
      then show ?thesis unfolding step using c1 by (rule findSpec_found)
    qed
  qed
qed

lemma find_backtrack:
  assumes sh: "perm_orders shuffle"
  shows "clues_ok (boardOf s) \<Longrightarrow> emptyCells (boardOf s) < fuel \<Longrightarrow>
         findSpec s (completions (boardOf s)) (backtrack shuffle 1 fuel s)"
proof (induction fuel arbitrary: s)
  case 0
  then show ?case by simp
next
  case (Suc fuel)
  let ?b = "boardOf s"
  have wf: "wf_grid ?b" using Suc.prems(1) by (rule clues_ok_wf)
  from wf show ?case
  proof (cases rule: firstEmpty_cases)
    case none
    have S: "completions ?b = {?b}" using completions_full[OF Suc.prems(1) none(2)] .
    have "backtrack shuffle 1 (Suc fuel) s = Inr (True, s)" using none(1) by simp
    then show ?thesis unfolding findSpec_def S by simp
  next
    case (some r c)
    let ?s = "s\<lparr>tick := Suc (tick s)\<rparr>"
    have nums: "set (shuffle (tick s)) = {1..9}" using sh by (simp add: perm_orders_def)
    have bt: "backtrack shuffle 1 (Suc fuel) s = tryNums shuffle 1 fuel r c (shuffle (tick s)) ?s"
      using some(1) by simp
    have "findSpec ?s (\<Union>d\<in>set (shuffle (tick s)). completions (setCell ?b r c d))
            (tryNums shuffle 1 fuel r c (shuffle (tick s)) ?s)"
    proof (rule find_tryNums[OF _ Suc.prems(1) some(2-4)])
      show "emptyCells ?b \<le> fuel" using Suc.prems(2) by simp
      show "set (shuffle (tick s)) \<subseteq> {1..9}" using nums by simp
      show "boardOf ?s = ?b" by simp
      show "findSpec s' (completions (boardOf s')) (backtrack shuffle 1 fuel s')"
        if "clues_ok (boardOf s')" "emptyCells (boardOf s') < fuel" for s'
        using Suc.IH[OF that] .
    qed
    moreover have "(\<Union>d\<in>set (shuffle (tick s)). completions (setCell ?b r c d)) = completions ?b"
      using completions_split[OF wf some(2-4)] nums by simp
    ultimately have "findSpec ?s (completions ?b) (backtrack shuffle 1 (Suc fuel) s)"
      using bt by simp
    then show ?thesis by (rule findSpec_mono) simp_all
  qed
qed

lemma runsSpec_le: "runsSpec a res \<Longrightarrow> emptyCells a \<le> emptyCells b \<Longrightarrow> runsSpec b res"
  unfolding runsSpec_def by force

lemma runs_tryNums:
  assumes bt: "\<And>s. wf_grid (boardOf s) \<Longrightarrow> emptyCells (boardOf s) < fuel \<Longrightarrow>
               runsSpec (boardOf s) (backtrack shuffle L fuel s)"
    and rc: "r < 9" "c < 9"
  shows "wf_grid (boardOf s) \<Longrightarrow> boardOf s ! r ! c = 0 \<Longrightarrow> emptyCells (boardOf s) \<le> fuel \<Longrightarrow>
         runsSpec (boardOf s) (tryNums shuffle L fuel r c nums s)"
proof (induction nums arbitrary: s)
  case Nil
  then show ?case by (simp add: runsSpec_def)
next
  case (Cons num nums)
  let ?b = "boardOf s"
  have valid: "isValid ?b r c num = Inr (safe ?b r c num)"
    using Cons.prems(1) rc by (simp add: isValid_wf)
  show ?case
  proof (cases "safe ?b r c num")
    case False
    then show ?thesis using valid Cons.IH[OF Cons.prems] by simp
  next
    case True
    let ?s0 = "s\<lparr>boardOf := setCell ?b r c num\<rparr>"
    have nz: "num \<noteq> 0" using safe_nonzero[OF rc Cons.prems(2) True] .
    have wf0: "wf_grid (boardOf ?s0)" using Cons.prems(1) by (simp add: wf_setCell)
    have e0: "Suc (emptyCells (setCell ?b r c num)) = emptyCells ?b"
      using emptyCells_fill[OF Cons.prems(1) rc Cons.prems(2) nz] .
    then have "emptyCells (boardOf ?s0) < fuel" using Cons.prems(3) by simp
    from bt[OF wf0 this] obtain f1 s1 where s1: "backtrack shuffle L fuel ?s0 = Inr (f1, s1)"
      and wf1: "wf_grid (boardOf s1)" and e1: "emptyCells (boardOf s1) \<le> emptyCells (setCell ?b r c num)"
      by (auto simp: runsSpec_def)
    have stop: "runsSpec ?b (Inr (True, s'))" if "boardOf s' = boardOf s1" for s'
      unfolding runsSpec_def using that wf1 e1 e0 by auto
    have cont: "runsSpec ?b (tryNums shuffle L fuel r c nums s')"
      if "boardOf s' = setCell (boardOf s1) r c 0" for s'
    proof -
      have "wf_grid (boardOf s')" using that wf1 by (simp add: wf_setCell)
      moreover have "boardOf s' ! r ! c = 0" using that wf1 rc by (simp add: nth_setCell)
      moreover have le: "emptyCells (boardOf s') \<le> emptyCells ?b"
        using emptyCells_clear[OF wf1 rc] e1 e0 that by simp
      ultimately have "runsSpec (boardOf s') (tryNums shuffle L fuel r c nums s')"
        using Cons.IH[of s'] Cons.prems(3) by simp
      then show ?thesis using le by (rule runsSpec_le)
    qed
    have step: "tryNums shuffle L fuel r c (num # nums) s =
        (if f1 \<and> (L = 1 \<or> L \<le> Suc (count s1))
         then Inr (True, if L = 1 then s1 else s1\<lparr>count := Suc (count s1)\<rparr>)
         else tryNums shuffle L fuel r c nums
                (if f1 then s1\<lparr>count := Suc (count s1), boardOf := setCell (boardOf s1) r c 0\<rparr>
                 else s1\<lparr>boardOf := setCell (boardOf s1) r c 0\<rparr>))"
      using valid True s1 by simp
    show ?thesis
      unfolding step by (cases "f1 \<and> (L = 1 \<or> L \<le> Suc (count s1))") (simp_all add: stop cont)
  qed
qed

lemma runs_backtrack:
  "wf_grid (boardOf s) \<Longrightarrow> emptyCells (boardOf s) < fuel \<Longrightarrow>
   runsSpec (boardOf s) (backtrack shuffle L fuel s)"
proof (induction fuel arbitrary: s)
  case 0
  then show ?case by simp
next
  case (Suc fuel)
  let ?b = "boardOf s"
  from Suc.prems(1) show ?case
  proof (cases rule: firstEmpty_cases)
    case none
    then show ?thesis using Suc.prems(1) by (auto simp: runsSpec_def)
  next
    case (some r c)
    let ?s = "s\<lparr>tick := Suc (tick s)\<rparr>"
    have "runsSpec (boardOf ?s) (tryNums shuffle L fuel r c (shuffle (tick s)) ?s)"
    proof (rule runs_tryNums[OF _ some(2,3)])
      show "wf_grid (boardOf ?s)" using Suc.prems(1) by simp
      show "boardOf ?s ! r ! c = 0" using some(4) by simp
      show "emptyCells (boardOf ?s) \<le> fuel" using Suc.prems(2) by simp
      show "runsSpec (boardOf s') (backtrack shuffle L fuel s')"
        if "wf_grid (boardOf s')" "emptyCells (boardOf s') < fuel" for s'
        using Suc.IH[OF that] .
    qed
    then show ?thesis using some(1) by simp
  qed
qed

section \<open>solve and generateFullGrid\<close>

lemma valid_exampleSolution: "valid_grid exampleSolution"
  by code_simp

lemma clues_ok_emptyGrid: "clues_ok emptyGrid"
  by code_simp

lemma emptyGrid_has_completion: "exampleSolution \<in> completions emptyGrid"
proof -
  have "extends emptyGrid exampleSolution" by code_simp
  then show ?thesis using valid_exampleSolution by (simp add: completions_def)
qed

lemma solve_find:
  assumes "clues_ok b" "perm_orders shuffle" "emptyCells b < fuel"
  shows "\<exists>b' t'. solve shuffle fuel b 1 t = Inr (Bool (completions b \<noteq> {}), b', t') \<and>
           (completions b = {} \<longrightarrow> b' = b) \<and> (completions b \<noteq> {} \<longrightarrow> b' \<in> completions b)"
proof -
  let ?s = "\<lparr>boardOf = b, count = 0, tick = t\<rparr>"
  have "findSpec ?s (completions (boardOf ?s)) (backtrack shuffle 1 fuel ?s)"
    using assms by (intro find_backtrack) simp_all
  then obtain s' where "backtrack shuffle 1 fuel ?s = Inr (completions b \<noteq> {}, s')"
    "completions b = {} \<longrightarrow> boardOf s' = b" "completions b \<noteq> {} \<longrightarrow> boardOf s' \<in> completions b"
    by (auto simp: findSpec_def)
  then show ?thesis by (simp add: solve_def)
qed

lemma solve_count:
  assumes "clues_ok b" "perm_orders shuffle" "2 \<le> L" "emptyCells b < fuel"
  shows "\<exists>b' t'. solve shuffle fuel b L t =
             Inr (Number (if card (completions b) < L then card (completions b) else L + emptyCells b), b', t') \<and>
           (card (completions b) < L \<longrightarrow> b' = b) \<and> (L \<le> card (completions b) \<longrightarrow> b' \<in> completions b)"
proof -
  let ?s = "\<lparr>boardOf = b, count = 0, tick = t\<rparr>"
  have "countSpec L ?s (completions (boardOf ?s)) (backtrack shuffle L fuel ?s)"
    using assms by (intro count_backtrack) simp_all
  then obtain s' where "backtrack shuffle L fuel ?s = Inr (L \<le> card (completions b), s')"
    "card (completions b) < L \<longrightarrow> boardOf s' = b \<and> count s' = card (completions b)"
    "L \<le> card (completions b) \<longrightarrow> count s' = L + emptyCells b \<and> boardOf s' \<in> completions b"
    by (auto simp: countSpec_def)
  then show ?thesis using assms(3) by (auto simp: solve_def)
qed

lemma solve_runs:
  assumes "wf_grid b" "emptyCells b < fuel"
  shows "\<exists>r b' t'. solve shuffle fuel b L t = Inr (r, b', t') \<and> wf_grid b' \<and>
           (L = 1 \<longrightarrow> (\<exists>found. r = Bool found)) \<and> (L \<noteq> 1 \<longrightarrow> (\<exists>n. r = Number n))"
proof -
  let ?s = "\<lparr>boardOf = b, count = 0, tick = t\<rparr>"
  have "runsSpec (boardOf ?s) (backtrack shuffle L fuel ?s)"
    using assms by (intro runs_backtrack) simp_all
  then obtain found s' where "backtrack shuffle L fuel ?s = Inr (found, s')" "wf_grid (boardOf s')"
    by (auto simp: runsSpec_def)
  then show ?thesis by (auto simp: solve_def)
qed

lemma fuel_enough: "81 < fuel \<Longrightarrow> emptyCells b < fuel"
  using emptyCells_le[of b] by simp

lemma generateFullGrid_valid:
  assumes "perm_orders shuffle" "81 < fuel"
  shows "\<exists>b t'. generateFullGrid shuffle fuel t = Inr (b, t') \<and> valid_grid b"
proof -
  have ne: "completions emptyGrid \<noteq> {}" using emptyGrid_has_completion by blast
  from solve_find[OF clues_ok_emptyGrid assms(1) fuel_enough[OF assms(2)], of t] ne
  obtain b' t' where "solve shuffle fuel emptyGrid 1 t = Inr (Bool True, b', t')" "b' \<in> completions emptyGrid"
    by auto
  then show ?thesis by (auto simp: generateFullGrid_def emptyGrid_def completions_def)
qed

section \<open>The technique classifier\<close>

lemma discard_filter: "0 \<notin> set cs \<Longrightarrow> discard (Some n) cs = filter (\<lambda>d. d \<noteq> n) cs"
proof (cases "n = 0")
  case True
  assume "0 \<notin> set cs"
  then have "\<forall>x\<in>set cs. x \<noteq> n" using True by metis
  then have "filter (\<lambda>d. d \<noteq> n) cs = cs" by (intro filter_True)
  with True show ?thesis by (simp add: discard_def)
next
  case False
  then show ?thesis by (simp add: discard_def removeAll_filter_not_eq) (metis)
qed

lemma findCandidates_lines_wf:
  "wf_grid b \<Longrightarrow> r < 9 \<Longrightarrow> c < 9 \<Longrightarrow> set is \<subseteq> {0..<9} \<Longrightarrow> 0 \<notin> set cs \<Longrightarrow>
   findCandidates_lines b r c cs is = Inr (filter (\<lambda>d. \<forall>i\<in>set is. b ! r ! i \<noteq> d \<and> b ! i ! c \<noteq> d) cs)"
proof (induction "is" arbitrary: cs)
  case Nil
  then show ?case by simp
next
  case (Cons i "is")
  let ?cs = "filter (\<lambda>d. d \<noteq> b ! i ! c) (filter (\<lambda>d. d \<noteq> b ! r ! i) cs)"
  have "0 \<notin> set ?cs" using Cons.prems(5) by simp
  with Cons.IH[of ?cs] Cons.prems have
    "findCandidates_lines b r c ?cs is = Inr (filter (\<lambda>d. \<forall>i\<in>set is. b ! r ! i \<noteq> d \<and> b ! i ! c \<noteq> d) ?cs)"
    by simp
  moreover have "findCandidates_lines b r c cs (i # is) = findCandidates_lines b r c ?cs is"
    using Cons.prems by (simp add: cellAt_wf discard_filter)
  moreover have "filter (\<lambda>d. \<forall>i\<in>set is. b ! r ! i \<noteq> d \<and> b ! i ! c \<noteq> d) ?cs =
      filter (\<lambda>d. \<forall>j\<in>set (i # is). b ! r ! j \<noteq> d \<and> b ! j ! c \<noteq> d) cs"
    by (auto intro!: filter_cong)
  ultimately show ?case by simp
qed

lemma findCandidates_box_wf:
  "wf_grid b \<Longrightarrow> sr \<le> 6 \<Longrightarrow> sc \<le> 6 \<Longrightarrow> set ps \<subseteq> {0..<3} \<times> {0..<3} \<Longrightarrow> 0 \<notin> set cs \<Longrightarrow>
   findCandidates_box b sr sc cs ps = Inr (filter (\<lambda>d. \<forall>(i, j)\<in>set ps. b ! (sr + i) ! (sc + j) \<noteq> d) cs)"
proof (induction ps arbitrary: cs)
  case Nil
  then show ?case by simp
next
  case (Cons p ps)
  obtain i j where p: "p = (i, j)" by (cases p)
  let ?cs = "filter (\<lambda>d. d \<noteq> b ! (sr + i) ! (sc + j)) cs"
  have ij: "sr + i < 9" "sc + j < 9" using Cons.prems p by auto
  have "0 \<notin> set ?cs" using Cons.prems(5) by simp
  with Cons.IH[of ?cs] Cons.prems have
    "findCandidates_box b sr sc ?cs ps = Inr (filter (\<lambda>d. \<forall>(i, j)\<in>set ps. b ! (sr + i) ! (sc + j) \<noteq> d) ?cs)"
    by simp
  moreover have "findCandidates_box b sr sc cs (p # ps) = findCandidates_box b sr sc ?cs ps"
    using Cons.prems ij p by (simp add: cellAt_wf discard_filter)
  moreover have "filter (\<lambda>d. \<forall>(i, j)\<in>set ps. b ! (sr + i) ! (sc + j) \<noteq> d) ?cs =
      filter (\<lambda>d. \<forall>(i, j)\<in>set (p # ps). b ! (sr + i) ! (sc + j) \<noteq> d) cs"
    using p by (auto intro!: filter_cong)
  ultimately show ?case by simp
qed

lemma findCandidates_wf:
  assumes "wf_grid b" "r < 9" "c < 9"
  shows "findCandidates b r c = Inr (candidateList b r c)"
proof (cases "b ! r ! c = 0")
  case False
  then show ?thesis using assms by (simp add: findCandidates_def cellAt_wf candidateList_def)
next
  case True
  let ?L = "\<lambda>d. \<forall>i\<in>set [0..<9]. b ! r ! i \<noteq> d \<and> b ! i ! c \<noteq> d"
  let ?B = "\<lambda>d. \<forall>(i, j)\<in>set offsets3. b ! (r div 3 * 3 + i) ! (c div 3 * 3 + j) \<noteq> d"
  have l: "findCandidates_lines b r c [1..<10] [0..<9] = Inr (filter ?L [1..<10])"
    using assms by (intro findCandidates_lines_wf) auto
  have bx: "findCandidates_box b (r div 3 * 3) (c div 3 * 3) (filter ?L [1..<10]) offsets3 =
              Inr (filter ?B (filter ?L [1..<10]))"
    using assms by (intro findCandidates_box_wf) (auto simp: set_offsets3)
  have eq: "filter ?B (filter ?L [1..<10]) = filter (safe b r c) [1..<10]"
    unfolding filter_filter using safe_loops[OF assms(2,3), of b] by (intro filter_cong) auto
  have cell: "cellAt b r c = Inr (Some 0)" using True assms by (simp add: cellAt_wf)
  have "findCandidates b r c = Inr (filter ?B (filter ?L [1..<10]))"
    unfolding findCandidates_def cell by (simp only: bindE_Inr l bx simp_thms if_False)
  also have "\<dots> = Inr (candidateList b r c)"
    using True by (simp only: eq candidateList_def simp_thms if_True)
  finally show ?thesis .
qed

lemma candidateList_props:
  "set (candidateList b r c) = candidateSet b r c" "distinct (candidateList b r c)"
  "length (candidateList b r c) = card (candidateSet b r c)"
proof -
  show s: "set (candidateList b r c) = candidateSet b r c"
    by (auto simp: candidateList_def candidateSet_def)
  show d: "distinct (candidateList b r c)" by (simp add: candidateList_def)
  show "length (candidateList b r c) = card (candidateSet b r c)"
    using distinct_card[OF d] s by simp
qed

lemma nakedLoop_step:
  assumes "wf_grid b" "r < 9" "c < 9"
  shows "nakedLoop b ac ((r, c) # ps) =
           (if length (candidateList b r c) = 1 then Inr None
            else nakedLoop b (ac(r := (ac r)(c := candidateList b r c))) ps)"
proof (cases "b ! r ! c = 0")
  case True
  then show ?thesis using assms by (simp add: cellAt_wf findCandidates_wf)
next
  case False
  then have "candidateList b r c = []" by (simp add: candidateList_def)
  then show ?thesis using assms False by (simp add: cellAt_wf)
qed

lemma nakedLoop_found:
  "wf_grid b \<Longrightarrow> set ps \<subseteq> set cells9 \<Longrightarrow> \<exists>(r, c)\<in>set ps. length (candidateList b r c) = 1 \<Longrightarrow>
   nakedLoop b ac ps = Inr None"
proof (induction ps arbitrary: ac)
  case Nil
  then show ?case by simp
next
  case (Cons p ps)
  obtain r c where p: "p = (r, c)" by (cases p)
  with Cons.prems(2) have rc: "r < 9" "c < 9" by (auto simp: set_cells9)
  show ?case
  proof (cases "length (candidateList b r c) = 1")
    case True
    then show ?thesis unfolding p nakedLoop_step[OF Cons.prems(1) rc] by simp
  next
    case False
    with Cons.prems(3) p have "\<exists>(r, c)\<in>set ps. length (candidateList b r c) = 1" by auto
    with Cons.IH[OF Cons.prems(1)] Cons.prems(2) False show ?thesis
      unfolding p nakedLoop_step[OF Cons.prems(1) rc] by simp
  qed
qed

lemma nakedLoop_table:
  "wf_grid b \<Longrightarrow> set ps \<subseteq> set cells9 \<Longrightarrow> \<not> (\<exists>(r, c)\<in>set ps. length (candidateList b r c) = 1) \<Longrightarrow>
   \<exists>ac'. nakedLoop b ac ps = Inr (Some ac') \<and>
         (\<forall>r c. ac' r c = (if (r, c) \<in> set ps then candidateList b r c else ac r c))"
proof (induction ps arbitrary: ac)
  case Nil
  then show ?case by simp
next
  case (Cons p ps)
  obtain r0 c0 where p: "p = (r0, c0)" by (cases p)
  with Cons.prems(2) have rc: "r0 < 9" "c0 < 9" by (auto simp: set_cells9)
  let ?ac = "ac(r0 := (ac r0)(c0 := candidateList b r0 c0))"
  have no: "length (candidateList b r0 c0) \<noteq> 1" "\<not> (\<exists>(r, c)\<in>set ps. length (candidateList b r c) = 1)"
    using Cons.prems(3) p by auto
  have sub: "set ps \<subseteq> set cells9" using Cons.prems(2) by simp
  from Cons.IH[OF Cons.prems(1) sub no(2), of ?ac]
  obtain ac' where ac': "nakedLoop b ?ac ps = Inr (Some ac')"
    "\<And>r c. ac' r c = (if (r, c) \<in> set ps then candidateList b r c else ?ac r c)" by blast
  have "nakedLoop b ac (p # ps) = Inr (Some ac')"
    unfolding p nakedLoop_step[OF Cons.prems(1) rc] using no(1) ac'(1) by simp
  moreover have "ac' r c = (if (r, c) \<in> set (p # ps) then candidateList b r c else ac r c)" for r c
    using ac'(2)[of r c] p by auto
  ultimately show ?case by blast
qed

lemma hiddenLoop_iff:
  "hiddenLoop ac ps \<longleftrightarrow>
     (\<exists>(i, num)\<in>set ps. rowCount ac i num = 1 \<or> colCount ac i num = 1 \<or> boxCount ac i num = 1)"
  by (induction ac ps rule: hiddenLoop.induct) auto

lemma card_filter_map:
  assumes "distinct (map f xs)"
  shows "card {p \<in> set (map f xs). Q p} = length (filter (\<lambda>x. Q (f x)) xs)"
proof -
  have "length (filter Q (map f xs)) = card ({p. Q p} \<inter> set (map f xs))"
    by (rule distinct_length_filter[OF assms])
  moreover have "{p. Q p} \<inter> set (map f xs) = {p \<in> set (map f xs). Q p}" by auto
  moreover have "length (filter Q (map f xs)) = length (filter (\<lambda>x. Q (f x)) xs)"
    by (simp add: filter_map comp_def)
  ultimately show ?thesis by simp
qed

lemma set_unitCells: "set unitCells = rowUnit ` {0..<9} \<union> colUnit ` {0..<9} \<union> boxUnit ` {0..<9}"
  by (auto simp: unitCells_def rowUnit_def colUnit_def boxUnit_def)

lemma unit_distinct: "i < 9 \<Longrightarrow> distinct (rowUnit i) \<and> distinct (colUnit i) \<and> distinct (boxUnit i)"
  using unit_props(2) set_unitCells by auto

lemma unit_counts:
  assumes "i < 9"
  shows "rowCount (candidateList b) i d = card {p \<in> set (rowUnit i). d \<in> candidateSet b (fst p) (snd p)}"
    and "colCount (candidateList b) i d = card {p \<in> set (colUnit i). d \<in> candidateSet b (fst p) (snd p)}"
    and "boxCount (candidateList b) i d = card {p \<in> set (boxUnit i). d \<in> candidateSet b (fst p) (snd p)}"
proof -
  note d = unit_distinct[OF assms]
  show "rowCount (candidateList b) i d = card {p \<in> set (rowUnit i). d \<in> candidateSet b (fst p) (snd p)}"
    using d unfolding rowUnit_def by (subst card_filter_map) (simp_all add: rowCount_def candidateList_props(1))
  show "colCount (candidateList b) i d = card {p \<in> set (colUnit i). d \<in> candidateSet b (fst p) (snd p)}"
    using d unfolding colUnit_def by (subst card_filter_map) (simp_all add: colCount_def candidateList_props(1))
  show "boxCount (candidateList b) i d = card {p \<in> set (boxUnit i). d \<in> candidateSet b (fst p) (snd p)}"
    using d unfolding boxUnit_def
    by (subst card_filter_map) (simp_all add: boxCount_def candidateList_props(1) split_def)
qed

lemma counts_cong:
  assumes "\<And>r c. r < 9 \<Longrightarrow> c < 9 \<Longrightarrow> ac r c = ac' r c" "i < 9"
  shows "rowCount ac i d = rowCount ac' i d" "colCount ac i d = colCount ac' i d"
    "boxCount ac i d = boxCount ac' i d"
proof -
  show "rowCount ac i d = rowCount ac' i d"
    unfolding rowCount_def using assms by (intro arg_cong[where f=length] filter_cong) auto
  show "colCount ac i d = colCount ac' i d"
    unfolding colCount_def using assms by (intro arg_cong[where f=length] filter_cong) auto
  have "i div 3 < 3" "i mod 3 < 3" using assms(2) by simp_all
  then have "i div 3 * 3 + r < 9 \<and> i mod 3 * 3 + c < 9" if "r < 3" "c < 3" for r c
    using that by linarith
  then show "boxCount ac i d = boxCount ac' i d"
    unfolding boxCount_def using assms(1)
    by (intro arg_cong[where f=length] filter_cong) (auto simp: set_offsets3)
qed

lemma set_unitDigits: "set unitDigits = {0..<9} \<times> {1..9}"
  by (auto simp: unitDigits_def)

lemma hiddenSingle_iff:
  "hiddenSingle b \<longleftrightarrow>
     (\<exists>(i, d)\<in>set unitDigits. rowCount (candidateList b) i d = 1 \<or> colCount (candidateList b) i d = 1 \<or>
        boxCount (candidateList b) i d = 1)"
  unfolding hiddenSingle_def set_unitCells set_unitDigits
  by (auto simp: unit_counts)

lemma nakedSingle_iff:
  "nakedSingle b \<longleftrightarrow> (\<exists>(r, c)\<in>set cells9. length (candidateList b r c) = 1)"
proof -
  have "length (candidateList b r c) = 1 \<longleftrightarrow> b ! r ! c = 0 \<and> card (candidateSet b r c) = 1" for r c
  proof (cases "b ! r ! c = 0")
    case True
    then show ?thesis using candidateList_props(3)[of b r c] by simp
  next
    case False
    then show ?thesis by (simp add: candidateList_def)
  qed
  then show ?thesis unfolding nakedSingle_def set_cells9 by fastforce
qed

lemma every_nonzero_iff:
  assumes "wf_grid b"
  shows "list_all (\<lambda>row. list_all (\<lambda>val. val \<noteq> 0) row) b \<longleftrightarrow> emptyCells b = 0"
proof -
  have "list_all (\<lambda>row. list_all (\<lambda>val. val \<noteq> 0) row) b \<longleftrightarrow> full b"
    using assms by (auto simp: list_all_length full_def wf_gridD)
  then show ?thesis by (simp add: emptyCells_0_iff)
qed

lemma level_cases:
  assumes "wf_grid b"
  shows "getRequiredTechniqueLevel b =
           Inr (if nakedSingle b \<or> hiddenSingle b then EASY_SINGLE
                else if emptyCells b = 0 then SOLVED else REQUIRES_ADVANCED)"
proof (cases "nakedSingle b")
  case True
  then have "nakedLoop b (\<lambda>r c. []) cells9 = Inr None"
    using nakedLoop_found[OF assms, of cells9] by (simp add: nakedSingle_iff)
  with True show ?thesis by (simp add: getRequiredTechniqueLevel_def)
next
  case False
  then have "\<not> (\<exists>(r, c)\<in>set cells9. length (candidateList b r c) = 1)" by (simp add: nakedSingle_iff)
  from nakedLoop_table[OF assms _ this, of "\<lambda>r c. []"] obtain ac where
    ac: "nakedLoop b (\<lambda>r c. []) cells9 = Inr (Some ac)"
    "\<And>r c. ac r c = (if (r, c) \<in> set cells9 then candidateList b r c else [])" by auto
  have agree: "ac r c = candidateList b r c" if "r < 9" "c < 9" for r c
    using ac(2)[of r c] that by simp
  have "hiddenLoop ac unitDigits \<longleftrightarrow> hiddenSingle b"
    unfolding hiddenLoop_iff hiddenSingle_iff
    using counts_cong[OF agree] by (auto simp: set_unitDigits)
  then show ?thesis
    using False ac(1) every_nonzero_iff[OF assms] by (simp add: getRequiredTechniqueLevel_def)
qed

section \<open>The removal loop\<close>

lemma clueCount_emptyCells: "clueCount b + emptyCells b = 81"
proof -
  have "length (filter (\<lambda>(r, c). b ! r ! c \<noteq> 0) cells9) +
        length (filter (\<lambda>p. \<not> (\<lambda>(r, c). b ! r ! c \<noteq> 0) p) cells9) = length cells9"
    by (rule sum_length_filter_compl)
  moreover have "(\<lambda>p. \<not> (\<lambda>(r, c). b ! r ! c \<noteq> 0) p) = (\<lambda>(r, c). b ! r ! c = 0)" by auto
  moreover have "length cells9 = 81" by code_simp
  ultimately show ?thesis by (simp add: clueCount_def emptyCells_def)
qed

lemma clueCount_clear:
  assumes "wf_grid b" "r < 9" "c < 9" "b ! r ! c \<noteq> 0"
  shows "Suc (clueCount (setCell b r c 0)) = clueCount b"
proof -
  let ?cl = "setCell b r c 0"
  have "Suc (emptyCells (setCell ?cl r c (b ! r ! c))) = emptyCells ?cl"
    using assms by (intro emptyCells_fill) (simp_all add: wf_setCell nth_setCell)
  moreover have "setCell ?cl r c (b ! r ! c) = b" using assms by (intro setCell_restore) simp_all
  ultimately have "Suc (emptyCells b) = emptyCells ?cl" by simp
  with clueCount_emptyCells[of b] clueCount_emptyCells[of ?cl] show ?thesis by simp
qed

lemma clues_ok_clear:
  assumes "clues_ok b" "r < 9" "c < 9"
  shows "clues_ok (setCell b r c 0)"
proof (rule clues_okI)
  have wf: "wf_grid b" using assms(1) by (rule clues_ok_wf)
  show "wf_grid (setCell b r c 0)" using wf by (rule wf_setCell)
  fix r1 c1 :: nat assume in1: "r1 < 9" "c1 < 9"
  show "setCell b r c 0 ! r1 ! c1 \<le> 9"
    using clues_okD(1)[OF assms(1) in1] wf assms(2,3) by (simp add: nth_setCell)
  fix r2 c2 :: nat
  assume in2: "r2 < 9" "c2 < 9" and nz: "setCell b r c 0 ! r1 ! c1 \<noteq> 0"
    and ne: "(r2, c2) \<noteq> (r1, c1)" and su: "sameUnit (r1, c1) (r2, c2)"
  from nz wf assms(2,3) have v1: "(r1, c1) \<noteq> (r, c)" "setCell b r c 0 ! r1 ! c1 = b ! r1 ! c1" "b ! r1 ! c1 \<noteq> 0"
    by (auto simp: nth_setCell split: if_splits)
  show "setCell b r c 0 ! r2 ! c2 \<noteq> setCell b r c 0 ! r1 ! c1"
  proof (cases "(r2, c2) = (r, c)")
    case True
    then show ?thesis using v1 wf assms(2,3) by (simp add: nth_setCell)
  next
    case False
    then have "setCell b r c 0 ! r2 ! c2 = b ! r2 ! c2" using wf assms(2,3) by (auto simp: nth_setCell)
    with clues_okD(2)[OF assms(1) in1 v1(3) in2 ne su] v1(2) show ?thesis by simp
  qed
qed

text \<open>What one pass of the loop body computes on a well-formed puzzle.\<close>

lemma removalStep_wf:
  assumes wf: "wf_grid (puzzle g)" and fuel: "81 < fuel"
    and cell: "last (removableCells g) = (r, c)" "r < 9" "c < 9"
  shows "\<exists>n copy t' lvl.
           solve shuffle fuel (setCell (puzzle g) r c 0) 2 (rnd g) = Inr (Number n, copy, t') \<and>
           getRequiredTechniqueLevel (setCell (puzzle g) r c 0) = Inr lvl \<and>
           removalStep shuffle fuel difficulty g =
             Inr (if n = 1 \<and> (difficulty = ''easy'' \<or> difficulty = ''medium'' \<longrightarrow> lvl \<noteq> REQUIRES_ADVANCED)
                  then g\<lparr>puzzle := setCell (puzzle g) r c 0, clues := clues g - 1, attempts := 0,
                          removableCells := butlast (removableCells g), rnd := t'\<rparr>
                  else g\<lparr>puzzle := puzzle g, removableCells := (r, c) # butlast (removableCells g),
                          attempts := Suc (attempts g), rnd := t'\<rparr>)"
proof -
  let ?cl = "setCell (puzzle g) r c 0"
  have wfc: "wf_grid ?cl" using wf by (rule wf_setCell)
  from solve_runs[OF wfc fuel_enough[OF fuel], of shuffle 2 "rnd g"]
  obtain n copy t' where s: "solve shuffle fuel ?cl 2 (rnd g) = Inr (Number n, copy, t')" by auto
  obtain lvl where l: "getRequiredTechniqueLevel ?cl = Inr lvl" using level_cases[OF wfc] by simp
  have rest: "setCell ?cl r c (puzzle g ! r ! c) = puzzle g"
    using wf cell(2,3) by (intro setCell_restore) simp_all
  have inr: "r < length (puzzle g) \<and> c < length (puzzle g ! r)" using wf cell(2,3) by (simp add: wf_gridD)
  have "removalStep shuffle fuel difficulty g =
             Inr (if n = 1 \<and> (difficulty = ''easy'' \<or> difficulty = ''medium'' \<longrightarrow> lvl \<noteq> REQUIRES_ADVANCED)
                  then g\<lparr>puzzle := ?cl, clues := clues g - 1, attempts := 0,
                          removableCells := butlast (removableCells g), rnd := t'\<rparr>
                  else g\<lparr>puzzle := puzzle g, removableCells := (r, c) # butlast (removableCells g),
                          attempts := Suc (attempts g), rnd := t'\<rparr>)"
    unfolding removalStep_def cell(1) using inr s l rest by (simp add: Let_def)
  with s l show ?thesis by blast
qed

text \<open>Each pass either shortens the coordinate list or adds a failed attempt.\<close>

lemma removalStep_measure:
  assumes "removalStep shuffle fuel difficulty g = Inr g'" "removableCells g \<noteq> []"
  shows "(length (removableCells g') < length (removableCells g) \<and> attempts g' = 0 \<and> clues g' = clues g - 1) \<or>
         (length (removableCells g') = length (removableCells g) \<and> attempts g' = Suc (attempts g) \<and>
          clues g' = clues g)"
proof -
  obtain r c where rc: "last (removableCells g) = (r, c)" by (cases "last (removableCells g)")
  have len: "length (butlast (removableCells g)) < length (removableCells g)"
    using assms(2) by simp
  have len2: "Suc (length (butlast (removableCells g))) = length (removableCells g)"
    using assms(2) by simp
  from assms(1) show ?thesis
    unfolding removalStep_def rc using len len2
    by (auto simp: Let_def bindE_eq_Inr split: if_splits)
qed

lemma removalLoop_stop:
  "\<not> (targetClues < clues g \<and> removableCells g \<noteq> [] \<and> attempts g < maxAttemptsPerRemoval) \<Longrightarrow>
   removalLoop shuffle fuel targetClues difficulty g = Some (Inr g)"
  by (subst removalLoop.simps) auto

lemma removalLoop_continue:
  "targetClues < clues g \<Longrightarrow> removableCells g \<noteq> [] \<Longrightarrow> attempts g < maxAttemptsPerRemoval \<Longrightarrow>
   removalLoop shuffle fuel targetClues difficulty g =
     (case removalStep shuffle fuel difficulty g of
        Inl e \<Rightarrow> Some (Inl e)
      | Inr g' \<Rightarrow> removalLoop shuffle fuel targetClues difficulty g')"
  by (subst removalLoop.simps) auto

lemma removalStep_decreases:
  assumes "removalStep shuffle fuel difficulty g = Inr g'" "removableCells g \<noteq> []"
    "attempts g < maxAttemptsPerRemoval"
  shows "loopMeasure g' < loopMeasure g"
proof -
  from removalStep_measure[OF assms(1,2)] show ?thesis
  proof
    assume a: "length (removableCells g') < length (removableCells g) \<and> attempts g' = 0 \<and> clues g' = clues g - 1"
    then have "Suc (length (removableCells g')) \<le> length (removableCells g)" by simp
    then have "Suc (length (removableCells g')) * Suc maxAttemptsPerRemoval
                 \<le> length (removableCells g) * Suc maxAttemptsPerRemoval"
      by (rule mult_le_mono1)
    then show ?thesis using a unfolding loopMeasure_def by simp
  next
    assume "length (removableCells g') = length (removableCells g) \<and> attempts g' = Suc (attempts g) \<and>
          clues g' = clues g"
    then show ?thesis using assms(3) unfolding loopMeasure_def by simp
  qed
qed

lemma removalLoop_terminates: "\<exists>res. removalLoop shuffle fuel targetClues difficulty g = Some res"
proof (induction "loopMeasure g" arbitrary: g rule: less_induct)
  case less
  show ?case
  proof (cases "targetClues < clues g \<and> removableCells g \<noteq> [] \<and> attempts g < maxAttemptsPerRemoval")
    case False
    then show ?thesis using removalLoop_stop by blast
  next
    case True
    show ?thesis
    proof (cases "removalStep shuffle fuel difficulty g")
      case (Inl e)
      with True show ?thesis by (simp add: removalLoop_continue)
    next
      case (Inr g')
      with True have "loopMeasure g' < loopMeasure g" using removalStep_decreases by blast
      from less[OF this] Inr True show ?thesis by (simp add: removalLoop_continue)
    qed
  qed
qed

text \<open>A property kept by every pass holds when the loop ends, and the loop ends without error.\<close>

lemma removalLoop_invariant:
  assumes step: "\<And>g. I g \<Longrightarrow> targetClues < clues g \<Longrightarrow> removableCells g \<noteq> [] \<Longrightarrow>
                   attempts g < maxAttemptsPerRemoval \<Longrightarrow>
                   \<exists>g'. removalStep shuffle fuel difficulty g = Inr g' \<and> I g'"
  shows "I g \<Longrightarrow> \<exists>g'. removalLoop shuffle fuel targetClues difficulty g = Some (Inr g') \<and> I g'"
proof (induction "loopMeasure g" arbitrary: g rule: less_induct)
  case less
  show ?case
  proof (cases "targetClues < clues g \<and> removableCells g \<noteq> [] \<and> attempts g < maxAttemptsPerRemoval")
    case False
    then show ?thesis using removalLoop_stop less.prems by blast
  next
    case True
    with step[OF less.prems] obtain g' where g': "removalStep shuffle fuel difficulty g = Inr g'" "I g'"
      by blast
    with True have "loopMeasure g' < loopMeasure g" using removalStep_decreases by blast
    from less.hyps[OF this g'(2)] g'(1) True show ?thesis by (simp add: removalLoop_continue)
  qed
qed

lemma genInv_step:
  assumes sh: "perm_orders shuffle" and fuel: "81 < fuel"
    and inv: "genInv targetClues g" and go: "targetClues < clues g" "removableCells g \<noteq> []"
  shows "\<exists>g'. removalStep shuffle fuel difficulty g = Inr g' \<and> genInv targetClues g' \<and>
           (clues g' = clues g - 1 \<or> (clues g' = clues g \<and> puzzle g' = puzzle g))"
proof -
  obtain r c where rc: "last (removableCells g) = (r, c)" by (cases "last (removableCells g)")
  have mem: "(r, c) \<in> set (removableCells g)" using go(2) rc last_in_set by metis
  from inv have ok: "clues_ok (puzzle g)" and one: "card (completions (puzzle g)) = 1"
    and cnt: "int (clueCount (puzzle g)) = clues g" and dist: "distinct (removableCells g)"
    and cells: "\<And>r c. (r, c) \<in> set (removableCells g) \<Longrightarrow> r < 9 \<and> c < 9 \<and> puzzle g ! r ! c \<noteq> 0"
    and tgt: "targetClues \<le> 81 \<Longrightarrow> targetClues \<le> clues g"
    unfolding genInv_def by auto
  have wf: "wf_grid (puzzle g)" using ok by (rule clues_ok_wf)
  have r9: "r < 9" "c < 9" and nz: "puzzle g ! r ! c \<noteq> 0" using cells[OF mem] by simp_all
  let ?cl = "setCell (puzzle g) r c 0"
  from removalStep_wf[OF wf fuel rc r9, of shuffle difficulty]
  obtain n copy t' lvl where s: "solve shuffle fuel ?cl 2 (rnd g) = Inr (Number n, copy, t')"
    and step: "removalStep shuffle fuel difficulty g =
             Inr (if n = 1 \<and> (difficulty = ''easy'' \<or> difficulty = ''medium'' \<longrightarrow> lvl \<noteq> REQUIRES_ADVANCED)
                  then g\<lparr>puzzle := ?cl, clues := clues g - 1, attempts := 0,
                          removableCells := butlast (removableCells g), rnd := t'\<rparr>
                  else g\<lparr>puzzle := puzzle g, removableCells := (r, c) # butlast (removableCells g),
                          attempts := Suc (attempts g), rnd := t'\<rparr>)"
    by blast
  have okc: "clues_ok ?cl" using clues_ok_clear[OF ok r9] .
  from solve_count[OF okc sh _ fuel_enough[OF fuel], of 2 "rnd g"] s
  have n: "n = (if card (completions ?cl) < 2 then card (completions ?cl) else 2 + emptyCells ?cl)"
    by auto
  have bl: "removableCells g = butlast (removableCells g) @ [(r, c)]"
    using go(2) rc by (metis append_butlast_last_id)
  then have dbl: "distinct (butlast (removableCells g))" "(r, c) \<notin> set (butlast (removableCells g))"
    using dist by (metis distinct_append, metis distinct_append disjoint_iff list.set_intros(1))
  have sbl: "set (butlast (removableCells g)) \<subseteq> set (removableCells g)" by (meson in_set_butlastD subsetI)
  show ?thesis
  proof (cases "n = 1 \<and> (difficulty = ''easy'' \<or> difficulty = ''medium'' \<longrightarrow> lvl \<noteq> REQUIRES_ADVANCED)")
    case True
    let ?g' = "g\<lparr>puzzle := ?cl, clues := clues g - 1, attempts := 0,
                  removableCells := butlast (removableCells g), rnd := t'\<rparr>"
    have st: "removalStep shuffle fuel difficulty g = Inr ?g'"
      by (subst step, subst if_P[OF True]) (rule refl)
    have "card (completions ?cl) = 1" using n True by (simp split: if_splits)
    moreover have "int (clueCount ?cl) = clues g - 1"
      using clueCount_clear[OF wf r9 nz] cnt by linarith
    moreover have "r' < 9 \<and> c' < 9 \<and> ?cl ! r' ! c' \<noteq> 0" if "(r', c') \<in> set (butlast (removableCells g))" for r' c'
    proof -
      from that dbl(2) have "(r', c') \<noteq> (r, c)" by auto
      moreover from that sbl have "(r', c') \<in> set (removableCells g)" by auto
      ultimately show ?thesis using cells[of r' c'] wf r9 by (auto simp: nth_setCell)
    qed
    moreover have "targetClues \<le> clues g - 1" using go(1) by simp
    ultimately have "genInv targetClues ?g'" unfolding genInv_def using okc dbl(1) by auto
    then show ?thesis using st by auto
  next
    case False
    let ?g' = "g\<lparr>puzzle := puzzle g, removableCells := (r, c) # butlast (removableCells g),
                  attempts := Suc (attempts g), rnd := t'\<rparr>"
    have st: "removalStep shuffle fuel difficulty g = Inr ?g'"
      by (subst step, subst if_not_P[OF False]) (rule refl)
    have "set ((r, c) # butlast (removableCells g)) = set (removableCells g)"
      using bl by (metis Un_commute insert_is_Un list.simps(15) set_append empty_set)
    moreover have "distinct ((r, c) # butlast (removableCells g))" using dbl by simp
    ultimately have "genInv targetClues ?g'"
      unfolding genInv_def using ok one cnt cells tgt by auto
    then show ?thesis using st by auto
  qed
qed

lemma clueCount_valid: "valid_grid b \<Longrightarrow> clueCount b = 81"
  using clueCount_emptyCells[of b] by (simp add: valid_grid_iff emptyCells_0_iff[symmetric])

lemma genInv_initial:
  assumes "perm_orders shuffle" "perm_cells shuffleCells" "81 < fuel"
  shows "\<exists>g0. initialGen shuffle shuffleCells fuel t = Inr g0 \<and> genInv targetClues g0 \<and> clues g0 = 81"
proof -
  from generateFullGrid_valid[OF assms(1,3), of t] obtain b t' where
    b: "generateFullGrid shuffle fuel t = Inr (b, t')" "valid_grid b" by blast
  let ?g0 = "\<lparr>puzzle = b, clues = 81, attempts = 0, removableCells = shuffleCells cells9, rnd = t'\<rparr>"
  have g0: "initialGen shuffle shuffleCells fuel t = Inr ?g0" using b(1) by (simp add: initialGen_def)
  have ok: "clues_ok b" "full b" using b(2) by (simp_all add: valid_grid_iff)
  have "card (completions b) = 1" using completions_full[OF ok] by simp
  moreover have "r < 9 \<and> c < 9 \<and> b ! r ! c \<noteq> 0" if "(r, c) \<in> set (shuffleCells cells9)" for r c
  proof -
    from that assms(2) have "(r, c) \<in> set cells9" by (simp add: perm_cells_def)
    then show ?thesis using ok(2) by (simp add: set_cells9 full_def)
  qed
  moreover have "distinct (shuffleCells cells9)" using assms(2) by (simp add: perm_cells_def)
  ultimately have "genInv targetClues ?g0"
    unfolding genInv_def using ok(1) clueCount_valid[OF b(2)] by auto
  with g0 show ?thesis by auto
qed

lemma generate_result:
  assumes "perm_orders shuffle" "perm_cells shuffleCells" "81 < fuel"
  shows "\<exists>g. generateSudokuPuzzle shuffle shuffleCells fuel targetClues difficulty t = Some (Inr (puzzle g, rnd g)) \<and>
             genInv targetClues g"
proof -
  from genInv_initial[OF assms, of t targetClues] obtain g0 where
    g0: "initialGen shuffle shuffleCells fuel t = Inr g0" "genInv targetClues g0" by blast
  have "\<exists>g. removalLoop shuffle fuel targetClues difficulty g0 = Some (Inr g) \<and> genInv targetClues g"
  proof (rule removalLoop_invariant[where I = "genInv targetClues"])
    show "genInv targetClues g0" by (rule g0)
    fix g assume "genInv targetClues g" "targetClues < clues g" "removableCells g \<noteq> []"
    from genInv_step[OF assms(1,3) this]
    show "\<exists>g'. removalStep shuffle fuel difficulty g = Inr g' \<and> genInv targetClues g'" by blast
  qed
  then obtain g where "removalLoop shuffle fuel targetClues difficulty g0 = Some (Inr g)" "genInv targetClues g"
    by blast
  with g0(1) show ?thesis by (auto simp: generateSudokuPuzzle_def)
qed

lemma loopVisits_inv:
  assumes "perm_orders shuffle" "81 < fuel" "genInv targetClues g0"
    and "loopVisits shuffle fuel targetClues difficulty g0 g"
  shows "genInv targetClues g \<and> clues g \<le> clues g0"
  using assms(4)
proof (induction rule: loopVisits.induct)
  case start
  then show ?case using assms(3) by simp
next
  case (pass g g')
  from genInv_step[OF assms(1,2) _ pass.hyps(2,3), of difficulty] pass.IH pass.hyps(5)
  show ?case by auto
qed

section \<open>Facts about the example grids\<close>

lemma perm_orders_ascending: "perm_orders ascending"
  by (auto simp: perm_orders_def ascending_def)

lemma clues_ok_twoSolutions: "clues_ok twoSolutions"
  by code_simp

lemma wf_twoSolutions: "wf_grid twoSolutions"
  by code_simp

lemma twoSolutions_completions:
  "exampleSolution \<in> completions twoSolutions" "otherSolution \<in> completions twoSolutions"
proof -
  have "valid_grid exampleSolution" "valid_grid otherSolution" by code_simp+
  moreover have "extends twoSolutions exampleSolution" "extends twoSolutions otherSolution" by code_simp+
  ultimately show "exampleSolution \<in> completions twoSolutions" "otherSolution \<in> completions twoSolutions"
    by (simp_all add: completions_def)
qed

lemma completions_allOnes: "completions allOnes = {}"
proof (rule ccontr)
  assume "completions allOnes \<noteq> {}"
  then obtain s where s: "valid_grid s" "extends allOnes s" by (auto simp: completions_def)
  have wf1: "wf_grid allOnes" by code_simp
  have "s = allOnes"
  proof (rule grid_eqI)
    show "wf_grid s" using s(1) by (simp add: valid_grid_def)
    show "wf_grid allOnes" by (rule wf1)
    fix r c :: nat assume rc: "r < 9" "c < 9"
    then have "allOnes ! r ! c = 1" by (simp add: allOnes_def)
    with extendsD[OF s(2) rc] show "s ! r ! c = allOnes ! r ! c" by simp
  qed
  moreover have "\<not> valid_grid allOnes" by code_simp
  ultimately show False using s(1) by simp
qed

lemma perm_cells_id: "perm_cells (\<lambda>cells. cells)"
  by (simp add: perm_cells_def distinct_cells9)

lemma wf_threeCleared: "wf_grid threeCleared"
  by code_simp

lemma genReject_step:
  "removalStep ascending 82 ''hard'' genReject =
     Inr \<lparr>puzzle = threeCleared, clues = 78, attempts = 4, removableCells = [(3, 4), (0, 0)], rnd = 7\<rparr>"
  by code_simp

section \<open>The solver: results\<close>

text \<open>
  In counting mode the counter is incremented when a complete grid is reached (line 64)
  and once more in every enclosing call through which the early success return passes
  (line 51). Lemma \<open>solve_count\<close> gives the value returned: the number of solutions when
  that is below the limit \<open>L\<close>, and otherwise \<open>L\<close> plus the number of empty cells of the
  grid. On \<open>twoSolutions\<close> with limit 2 that is 6.
\<close>

lemma solve_limit_two_overshoots:
  "solve ascending 82 twoSolutions 2 0 = Inr (Number 6, otherSolution, 7)"
  by code_simp

text \<open>
  C1, as stated, fails: with limit 3 on a grid with two solutions and four empty cells
  the value returned is 2, which is neither 0, 1 nor the limit.
\<close>

theorem counting_result_counterexample:
  "solve ascending 82 twoSolutions 3 0 = Inr (Number 2, twoSolutions, 7) \<and>
   exampleSolution \<in> completions twoSolutions \<and> otherSolution \<in> completions twoSolutions \<and>
   exampleSolution \<noteq> otherSolution \<and> emptyCells twoSolutions = 4"
proof -
  have "solve ascending 82 twoSolutions 3 0 = Inr (Number 2, twoSolutions, 7)" by code_simp
  moreover have "exampleSolution \<noteq> otherSolution" by code_simp
  moreover have "emptyCells twoSolutions = 4" by code_simp
  ultimately show ?thesis using twoSolutions_completions by simp
qed

text \<open>
  C1, amended: for every 9x9 grid and every limit \<open>L \<ge> 2\<close>, \<open>solve\<close> in counting mode
  returns the counter without an error. On a grid whose given cells are digits with no
  two equal digits in one unit: when the grid has fewer than \<open>L\<close> solutions the value is
  the number of solutions (so 0 for none and 1 for a unique one) and the grid is left as
  it was; when it has at least \<open>L\<close> solutions the value is at least \<open>L\<close> and the search
  has stopped on a solution.
\<close>

theorem counting_result:
  assumes "wf_grid b" "2 \<le> L" "81 < fuel"
  shows "\<exists>n b' t'. solve shuffle fuel b L t = Inr (Number n, b', t') \<and>
           (perm_orders shuffle \<and> clues_ok b \<longrightarrow>
              (card (completions b) < L \<longrightarrow> n = card (completions b) \<and> b' = b) \<and>
              (L \<le> card (completions b) \<longrightarrow> L \<le> n \<and> b' \<in> completions b))"
proof -
  from solve_runs[OF assms(1) fuel_enough[OF assms(3)], of shuffle L t] assms(2)
  obtain n b' t' where r: "solve shuffle fuel b L t = Inr (Number n, b', t')" by auto
  have "(card (completions b) < L \<longrightarrow> n = card (completions b) \<and> b' = b) \<and>
        (L \<le> card (completions b) \<longrightarrow> L \<le> n \<and> b' \<in> completions b)"
    if "perm_orders shuffle" "clues_ok b"
    using solve_count[OF that(2,1) assms(2) fuel_enough[OF assms(3)], of t] r by auto
  with r show ?thesis by blast
qed

theorem counting_result_witness:
  "wf_grid threeCleared \<and> (2::nat) \<le> 2 \<and> (81::nat) < 82 \<and> perm_orders ascending \<and>
   clues_ok threeCleared \<and> solve ascending 82 threeCleared 2 0 = Inr (Number 1, threeCleared, 4) \<and>
   card (completions threeCleared) = 1"
proof -
  have ok: "clues_ok threeCleared" by code_simp
  have run: "solve ascending 82 threeCleared 2 0 = Inr (Number 1, threeCleared, 4)" by code_simp
  have two: "(2::nat) \<le> 2" "(81::nat) < 82" by simp_all
  from counting_result[OF wf_threeCleared two, of ascending 0] run perm_orders_ascending ok
  have "card (completions threeCleared) = 1"
    by (cases "card (completions threeCleared) < 2") auto
  with wf_threeCleared ok run perm_orders_ascending show ?thesis by simp
qed

text \<open>
  C3: every grid returned by \<open>generateFullGrid\<close> is fully assigned and valid: each row,
  column and box holds each digit 1 to 9 exactly once. The call returns such a grid for
  every outcome of the random digit orders.
\<close>

theorem generateFullGrid_full_valid:
  assumes "perm_orders shuffle" "81 < fuel"
  shows "\<exists>b t'. generateFullGrid shuffle fuel t = Inr (b, t') \<and> valid_grid b \<and> emptyCells b = 0"
proof -
  from generateFullGrid_valid[OF assms, of t] obtain b t' where
    b: "generateFullGrid shuffle fuel t = Inr (b, t')" "valid_grid b" by blast
  then have "emptyCells b = 0" by (simp add: valid_grid_iff emptyCells_0_iff)
  with b show ?thesis by blast
qed

theorem generateFullGrid_full_valid_witness:
  "perm_orders ascending \<and> (81::nat) < 82 \<and>
   (\<exists>b t'. generateFullGrid ascending 82 0 = Inr (b, t') \<and> valid_grid b \<and> emptyCells b = 0)"
  using generateFullGrid_full_valid[OF perm_orders_ascending, of 82 0] perm_orders_ascending by simp

text \<open>
  A grid with fewer than 9 rows makes the solver read a cell of an undefined row, which
  raises a TypeError; the grids of the specification have 9 rows of 9 cells.
\<close>

lemma solve_short_grid_raises: "solve ascending 82 [[0]] 1 0 = Inl TypeError"
  by code_simp

text \<open>
  C4, as stated, fails: on a full grid the search finds no empty cell and returns true
  at once, whatever the grid holds. The grid of ones has no valid completion.
\<close>

theorem findOne_invalid_full_grid_counterexample:
  "solve ascending 82 allOnes 1 0 = Inr (Bool True, allOnes, 0) \<and> completions allOnes = {}"
proof -
  have "solve ascending 82 allOnes 1 0 = Inr (Bool True, allOnes, 0)" by code_simp
  then show ?thesis using completions_allOnes by simp
qed

text \<open>
  C4, amended: on every 9x9 grid, whatever numbers it holds, \<open>solve\<close> with
  \<open>solutions = 1\<close> returns a boolean without raising an error. When the given cells are
  digits and no two cells of a unit hold the same digit, it returns false whenever the
  grid has no valid completion (and true otherwise); the given cells themselves are
  never checked against each other.
\<close>

theorem findOne_returns:
  assumes "wf_grid b" "81 < fuel"
  shows "\<exists>found b' t'. solve shuffle fuel b 1 t = Inr (Bool found, b', t') \<and>
           (perm_orders shuffle \<and> clues_ok b \<longrightarrow> (found \<longleftrightarrow> completions b \<noteq> {}))"
proof -
  from solve_runs[OF assms(1) fuel_enough[OF assms(2)], of shuffle 1 t]
  obtain found b' t' where r: "solve shuffle fuel b 1 t = Inr (Bool found, b', t')" by auto
  have "found \<longleftrightarrow> completions b \<noteq> {}" if "perm_orders shuffle" "clues_ok b"
    using solve_find[OF that(2,1) fuel_enough[OF assms(2)], of t] r by auto
  with r show ?thesis by blast
qed

theorem findOne_returns_witness:
  "wf_grid stuckGrid \<and> (81::nat) < 82 \<and> perm_orders ascending \<and> clues_ok stuckGrid \<and>
   solve ascending 82 stuckGrid 1 0 = Inr (Bool False, stuckGrid, 1) \<and> completions stuckGrid = {}"
proof -
  have wf: "wf_grid stuckGrid" by code_simp
  have ok: "clues_ok stuckGrid" by code_simp
  have run: "solve ascending 82 stuckGrid 1 0 = Inr (Bool False, stuckGrid, 1)" by code_simp
  from findOne_returns[OF wf, of 82 ascending 0] run perm_orders_ascending ok
  have "completions stuckGrid = {}" by auto
  with wf ok run perm_orders_ascending show ?thesis by simp
qed

text \<open>
  C10: for some input grid, \<open>solve\<close> in counting mode with limit 2 returns with the grid
  changed. The search works on the caller's grid, and the return that follows the second
  complete grid leaves the cells of the current branch assigned: \<open>twoSolutions\<close> comes
  back as \<open>otherSolution\<close>.
\<close>

theorem counting_mode_changes_grid:
  "solve ascending 82 twoSolutions 2 0 = Inr (Number 6, otherSolution, 7) \<and>
   otherSolution \<noteq> twoSolutions"
  by code_simp

section \<open>The classifier and the generator: results\<close>

text \<open>
  C6: on every 9x9 grid \<open>getRequiredTechniqueLevel\<close> returns \<open>EASY_SINGLE\<close> iff the grid
  has a naked single or a hidden single; otherwise \<open>SOLVED\<close> iff no cell is empty, and
  \<open>REQUIRES_ADVANCED\<close> otherwise. The function only reads the grid: it has no assignment
  to \<open>board\<close>, so its model returns the level alone.
\<close>

theorem technique_level:
  assumes "wf_grid b"
  shows "\<exists>lvl. getRequiredTechniqueLevel b = Inr lvl \<and>
           (lvl = EASY_SINGLE \<longleftrightarrow> nakedSingle b \<or> hiddenSingle b) \<and>
           (lvl = SOLVED \<longleftrightarrow> \<not> (nakedSingle b \<or> hiddenSingle b) \<and> emptyCells b = 0) \<and>
           (lvl = REQUIRES_ADVANCED \<longleftrightarrow> \<not> (nakedSingle b \<or> hiddenSingle b) \<and> emptyCells b \<noteq> 0)"
  using level_cases[OF assms] by auto

theorem technique_level_witness:
  "wf_grid twoSolutions \<and>
   (\<exists>lvl. getRequiredTechniqueLevel twoSolutions = Inr lvl \<and>
      (lvl = EASY_SINGLE \<longleftrightarrow> nakedSingle twoSolutions \<or> hiddenSingle twoSolutions) \<and>
      (lvl = SOLVED \<longleftrightarrow> \<not> (nakedSingle twoSolutions \<or> hiddenSingle twoSolutions) \<and> emptyCells twoSolutions = 0) \<and>
      (lvl = REQUIRES_ADVANCED \<longleftrightarrow>
         \<not> (nakedSingle twoSolutions \<or> hiddenSingle twoSolutions) \<and> emptyCells twoSolutions \<noteq> 0))"
  using technique_level[OF wf_twoSolutions] wf_twoSolutions by simp

text \<open>
  C5, as stated, fails in one point: the attempts counter is not kept per cell. It is
  one variable of the generator, incremented by a failed attempt on whichever cell was
  tried: after one failed attempt on cell (3, 4) and one on cell (6, 8) it stands at 2.
\<close>

theorem attempts_counter_counterexample:
  "removalStep ascending 82 ''hard'' genTwoRectangles =
     Inr (genTwoRectangles\<lparr>removableCells := [(3, 4), (6, 8)], attempts := 1, rnd := 14\<rparr>) \<and>
   removalStep ascending 82 ''hard''
       (genTwoRectangles\<lparr>removableCells := [(3, 4), (6, 8)], attempts := 1, rnd := 14\<rparr>) =
     Inr (genTwoRectangles\<lparr>removableCells := [(6, 8), (3, 4)], attempts := 2, rnd := 25\<rparr>)"
  by code_simp

text \<open>
  C5, amended: \<open>generateSudokuPuzzle\<close> keeps a single attempts counter, shared by all
  cells, with the cap 50; every pass of the loop either accepts the removal, resetting
  the counter to 0 and decrementing \<open>clues\<close>, or fails, incrementing the counter; with
  50 failed attempts in a row the loop ends at once and returns the state reached; and
  the loop, hence the generation, always terminates.
\<close>

theorem attempts_cap_terminates:
  "(removableCells g \<noteq> [] \<and> removalStep shuffle fuel difficulty g = Inr g' \<longrightarrow>
      (attempts g' = 0 \<and> clues g' = clues g - 1) \<or>
      (attempts g' = Suc (attempts g) \<and> clues g' = clues g)) \<and>
   maxAttemptsPerRemoval = 50 \<and>
   (maxAttemptsPerRemoval \<le> attempts g \<longrightarrow>
      removalLoop shuffle fuel targetClues difficulty g = Some (Inr g)) \<and>
   (\<exists>res. removalLoop shuffle fuel targetClues difficulty g = Some res) \<and>
   (\<exists>res. generateSudokuPuzzle shuffle shuffleCells fuel targetClues difficulty t = Some res)"
proof (intro conjI impI)
  assume "removableCells g \<noteq> [] \<and> removalStep shuffle fuel difficulty g = Inr g'"
  then show "(attempts g' = 0 \<and> clues g' = clues g - 1) \<or> (attempts g' = Suc (attempts g) \<and> clues g' = clues g)"
    using removalStep_measure[of shuffle fuel difficulty g g'] by auto
next
  show "maxAttemptsPerRemoval = 50" by (simp add: maxAttemptsPerRemoval_def)
next
  assume "maxAttemptsPerRemoval \<le> attempts g"
  then show "removalLoop shuffle fuel targetClues difficulty g = Some (Inr g)"
    by (intro removalLoop_stop) simp
next
  show "\<exists>res. removalLoop shuffle fuel targetClues difficulty g = Some res"
    by (rule removalLoop_terminates)
next
  show "\<exists>res. generateSudokuPuzzle shuffle shuffleCells fuel targetClues difficulty t = Some res"
  proof (cases "initialGen shuffle shuffleCells fuel t")
    case (Inl e)
    then show ?thesis by (simp add: generateSudokuPuzzle_def)
  next
    case (Inr g0)
    from removalLoop_terminates[of shuffle fuel targetClues difficulty g0] obtain res where
      "removalLoop shuffle fuel targetClues difficulty g0 = Some res" by blast
    with Inr show ?thesis by (cases res) (simp_all add: generateSudokuPuzzle_def)
  qed
qed

theorem attempts_cap_terminates_witness:
  "removableCells genReject \<noteq> [] \<and>
   removalStep ascending 82 ''hard'' genReject =
     Inr \<lparr>puzzle = threeCleared, clues = 78, attempts = 4, removableCells = [(3, 4), (0, 0)], rnd = 7\<rparr> \<and>
   maxAttemptsPerRemoval \<le> attempts (genReject\<lparr>attempts := 50\<rparr>) \<and>
   removalLoop ascending 82 17 ''hard'' (genReject\<lparr>attempts := 50\<rparr>) = Some (Inr (genReject\<lparr>attempts := 50\<rparr>))"
proof -
  let ?g = "genReject\<lparr>attempts := 50\<rparr>"
  have m: "maxAttemptsPerRemoval \<le> attempts ?g"
    by (simp add: maxAttemptsPerRemoval_def)
  have ne: "removableCells genReject \<noteq> []" by (simp add: genReject_def)
  have "maxAttemptsPerRemoval \<le> attempts ?g \<longrightarrow>
          removalLoop ascending 82 17 ''hard'' ?g = Some (Inr ?g)"
    using attempts_cap_terminates[of ?g ascending 82 "''hard''" genReject 17 "\<lambda>cells. cells" 0]
    by blast
  with m have "removalLoop ascending 82 17 ''hard'' ?g = Some (Inr ?g)" by blast
  with m ne genReject_step show ?thesis by blast
qed

text \<open>
  C7: the names "easy", "medium", "hard" and "minima" map to the target clue counts 48,
  35, 25 and 17, and a pass of the removal loop accepts the removal exactly when the
  count of solutions is 1 and, for the difficulties "easy" and "medium" only, the
  classifier does not return \<open>REQUIRES_ADVANCED\<close>: for every other difficulty the
  classifier's answer plays no part, the removal is accepted on the count alone.
\<close>

theorem difficulty_profiles:
  assumes "wf_grid (puzzle g)" "81 < fuel" "last (removableCells g) = (r, c)" "r < 9" "c < 9"
  shows "DIFFICULTY_CLUES ''easy'' = Some 48 \<and> DIFFICULTY_CLUES ''medium'' = Some 35 \<and>
         DIFFICULTY_CLUES ''hard'' = Some 25 \<and> DIFFICULTY_CLUES ''minima'' = Some 17 \<and>
         (\<exists>n copy t' lvl g'.
            solve shuffle fuel (setCell (puzzle g) r c 0) 2 (rnd g) = Inr (Number n, copy, t') \<and>
            getRequiredTechniqueLevel (setCell (puzzle g) r c 0) = Inr lvl \<and>
            removalStep shuffle fuel difficulty g = Inr g' \<and>
            (n = 1 \<and> (difficulty = ''easy'' \<or> difficulty = ''medium'' \<longrightarrow> lvl \<noteq> REQUIRES_ADVANCED) \<longrightarrow>
               puzzle g' = setCell (puzzle g) r c 0 \<and> clues g' = clues g - 1) \<and>
            (\<not> (n = 1 \<and> (difficulty = ''easy'' \<or> difficulty = ''medium'' \<longrightarrow> lvl \<noteq> REQUIRES_ADVANCED)) \<longrightarrow>
               puzzle g' = puzzle g \<and> clues g' = clues g))"
proof -
  from removalStep_wf[OF assms, of shuffle difficulty]
  obtain n copy t' lvl where s: "solve shuffle fuel (setCell (puzzle g) r c 0) 2 (rnd g) = Inr (Number n, copy, t')"
    "getRequiredTechniqueLevel (setCell (puzzle g) r c 0) = Inr lvl"
    and step: "removalStep shuffle fuel difficulty g =
             Inr (if n = 1 \<and> (difficulty = ''easy'' \<or> difficulty = ''medium'' \<longrightarrow> lvl \<noteq> REQUIRES_ADVANCED)
                  then g\<lparr>puzzle := setCell (puzzle g) r c 0, clues := clues g - 1, attempts := 0,
                          removableCells := butlast (removableCells g), rnd := t'\<rparr>
                  else g\<lparr>puzzle := puzzle g, removableCells := (r, c) # butlast (removableCells g),
                          attempts := Suc (attempts g), rnd := t'\<rparr>)"
    by blast
  show ?thesis
  proof (cases "n = 1 \<and> (difficulty = ''easy'' \<or> difficulty = ''medium'' \<longrightarrow> lvl \<noteq> REQUIRES_ADVANCED)")
    case True
    have "removalStep shuffle fuel difficulty g =
            Inr (g\<lparr>puzzle := setCell (puzzle g) r c 0, clues := clues g - 1, attempts := 0,
                          removableCells := butlast (removableCells g), rnd := t'\<rparr>)"
      by (subst step, subst if_P[OF True]) (rule refl)
    with s True show ?thesis by (simp add: DIFFICULTY_CLUES_def)
  next
    case False
    have "removalStep shuffle fuel difficulty g =
            Inr (g\<lparr>puzzle := puzzle g, removableCells := (r, c) # butlast (removableCells g),
                          attempts := Suc (attempts g), rnd := t'\<rparr>)"
      by (subst step, subst if_not_P[OF False]) (rule refl)
    with s False show ?thesis by (simp add: DIFFICULTY_CLUES_def)
  qed
qed

theorem difficulty_profiles_witness:
  "wf_grid (puzzle genReject) \<and> (81::nat) < 82 \<and> last (removableCells genReject) = (3, 4) \<and>
   (3::nat) < 9 \<and> (4::nat) < 9 \<and>
   DIFFICULTY_CLUES ''easy'' = Some 48 \<and> DIFFICULTY_CLUES ''medium'' = Some 35 \<and>
   DIFFICULTY_CLUES ''hard'' = Some 25 \<and> DIFFICULTY_CLUES ''minima'' = Some 17 \<and>
   (\<exists>n copy t' lvl g'.
      solve ascending 82 (setCell (puzzle genReject) 3 4 0) 2 (rnd genReject) = Inr (Number n, copy, t') \<and>
      getRequiredTechniqueLevel (setCell (puzzle genReject) 3 4 0) = Inr lvl \<and>
      removalStep ascending 82 ''minima'' genReject = Inr g' \<and>
      (n = 1 \<and> (''minima'' = ''easy'' \<or> ''minima'' = ''medium'' \<longrightarrow> lvl \<noteq> REQUIRES_ADVANCED) \<longrightarrow>
         puzzle g' = setCell (puzzle genReject) 3 4 0 \<and> clues g' = clues genReject - 1) \<and>
      (\<not> (n = 1 \<and> (''minima'' = ''easy'' \<or> ''minima'' = ''medium'' \<longrightarrow> lvl \<noteq> REQUIRES_ADVANCED)) \<longrightarrow>
         puzzle g' = puzzle genReject \<and> clues g' = clues genReject))"
proof -
  have wf: "wf_grid (puzzle genReject)" using wf_threeCleared by (simp add: genReject_def)
  have l: "last (removableCells genReject) = (3, 4)" by (simp add: genReject_def)
  from difficulty_profiles[OF wf _ l, of 82 ascending "''minima''"] wf l show ?thesis
    by (simp del: One_nat_def)
qed

text \<open>
  C8: in every state the removal loop passes through, the number of non-empty cells of
  the working puzzle equals the counter \<open>clues\<close>, which never exceeds its start value
  81; a pass either decrements the counter by one or leaves the counter and the puzzle
  as they were; and for every \<open>targetClues \<le> 81\<close> the returned puzzle has at least
  \<open>targetClues\<close> non-empty cells.
\<close>

theorem clue_count_invariant:
  assumes "perm_orders shuffle" "perm_cells shuffleCells" "81 < fuel"
  shows "\<exists>g0. initialGen shuffle shuffleCells fuel t = Inr g0 \<and> clues g0 = 81 \<and>
           (\<forall>g. loopVisits shuffle fuel targetClues difficulty g0 g \<longrightarrow>
                  int (clueCount (puzzle g)) = clues g \<and> clues g \<le> clues g0 \<and>
                  (targetClues < clues g \<and> removableCells g \<noteq> [] \<longrightarrow>
                     (\<exists>g'. removalStep shuffle fuel difficulty g = Inr g' \<and>
                        (clues g' = clues g - 1 \<or> (clues g' = clues g \<and> puzzle g' = puzzle g))))) \<and>
           (\<exists>p t'. generateSudokuPuzzle shuffle shuffleCells fuel targetClues difficulty t = Some (Inr (p, t')) \<and>
                    (targetClues \<le> 81 \<longrightarrow> targetClues \<le> int (clueCount p)))"
proof -
  from genInv_initial[OF assms, of t targetClues] obtain g0 where
    g0: "initialGen shuffle shuffleCells fuel t = Inr g0" "genInv targetClues g0" "clues g0 = 81" by blast
  have visits: "int (clueCount (puzzle g)) = clues g \<and> clues g \<le> clues g0 \<and>
                  (targetClues < clues g \<and> removableCells g \<noteq> [] \<longrightarrow>
                     (\<exists>g'. removalStep shuffle fuel difficulty g = Inr g' \<and>
                        (clues g' = clues g - 1 \<or> (clues g' = clues g \<and> puzzle g' = puzzle g))))"
    if v: "loopVisits shuffle fuel targetClues difficulty g0 g" for g
  proof -
    from loopVisits_inv[OF assms(1,3) g0(2) v] have inv: "genInv targetClues g" "clues g \<le> clues g0" by simp_all
    from inv(1) have "int (clueCount (puzzle g)) = clues g" by (simp add: genInv_def)
    moreover have "\<exists>g'. removalStep shuffle fuel difficulty g = Inr g' \<and>
                        (clues g' = clues g - 1 \<or> (clues g' = clues g \<and> puzzle g' = puzzle g))"
      if "targetClues < clues g" "removableCells g \<noteq> []"
      using genInv_step[OF assms(1,3) inv(1) that, of difficulty] by blast
    ultimately show ?thesis using inv(2) by blast
  qed
  from generate_result[OF assms, of targetClues difficulty t] obtain g where
    g: "generateSudokuPuzzle shuffle shuffleCells fuel targetClues difficulty t = Some (Inr (puzzle g, rnd g))"
    "genInv targetClues g" by blast
  have "targetClues \<le> 81 \<longrightarrow> targetClues \<le> int (clueCount (puzzle g))"
    using g(2) by (simp add: genInv_def)
  with g(1) g0(1,3) visits show ?thesis by blast
qed

theorem clue_count_invariant_witness:
  "perm_orders ascending \<and> perm_cells (\<lambda>cells. cells) \<and> (81::nat) < 82 \<and>
   (\<exists>g0. initialGen ascending (\<lambda>cells. cells) 82 0 = Inr g0 \<and> clues g0 = 81 \<and>
      loopVisits ascending 82 48 ''easy'' g0 g0 \<and> int (clueCount (puzzle g0)) = clues g0 \<and>
      (\<exists>p t'. generateSudokuPuzzle ascending (\<lambda>cells. cells) 82 48 ''easy'' 0 = Some (Inr (p, t')) \<and>
               48 \<le> int (clueCount p)))"
proof -
  from clue_count_invariant[OF perm_orders_ascending perm_cells_id, of 82 0 48 "''easy''"]
  obtain g0 where g0: "initialGen ascending (\<lambda>cells. cells) 82 0 = Inr g0" "clues g0 = 81"
    "\<And>g. loopVisits ascending 82 48 ''easy'' g0 g \<Longrightarrow> int (clueCount (puzzle g)) = clues g"
    "\<exists>p t'. generateSudokuPuzzle ascending (\<lambda>cells. cells) 82 48 ''easy'' 0 = Some (Inr (p, t')) \<and>
               48 \<le> int (clueCount p)"
    by auto
  have "loopVisits ascending 82 48 ''easy'' g0 g0" by (rule loopVisits.start)
  with g0 perm_orders_ascending perm_cells_id show ?thesis by auto
qed

text \<open>
  C2: \<open>generateSudokuPuzzle\<close> returns a puzzle, for any target clue count and difficulty,
  and on every puzzle it returns the solver in counting mode with limit 2 returns
  exactly 1, whatever the random digit orders of that run, and leaves the copy as it
  was: the puzzle has exactly one solution.
\<close>

theorem generated_puzzle_unique:
  assumes "perm_orders shuffle" "perm_cells shuffleCells" "81 < fuel"
  shows "\<exists>p t1. generateSudokuPuzzle shuffle shuffleCells fuel targetClues difficulty t = Some (Inr (p, t1)) \<and>
           card (completions p) = 1 \<and>
           (\<forall>shuffle' fuel' t'. perm_orders shuffle' \<and> 81 < fuel' \<longrightarrow>
              (\<exists>t''. solve shuffle' fuel' p 2 t' = Inr (Number 1, p, t'')))"
proof -
  from generate_result[OF assms, of targetClues difficulty t] obtain g where
    g: "generateSudokuPuzzle shuffle shuffleCells fuel targetClues difficulty t = Some (Inr (puzzle g, rnd g))"
    "genInv targetClues g" by blast
  from g(2) have ok: "clues_ok (puzzle g)" and one: "card (completions (puzzle g)) = 1"
    by (simp_all add: genInv_def)
  have "\<exists>t''. solve shuffle' fuel' (puzzle g) 2 t' = Inr (Number 1, puzzle g, t'')"
    if "perm_orders shuffle'" "81 < fuel'" for shuffle' fuel' t'
    using solve_count[OF ok that(1) _ fuel_enough[OF that(2)], of 2 t'] one by auto
  with g(1) one show ?thesis by blast
qed

theorem generated_puzzle_unique_witness:
  "perm_orders ascending \<and> perm_cells (\<lambda>cells. cells) \<and> (81::nat) < 82 \<and>
   (\<exists>p t1. generateSudokuPuzzle ascending (\<lambda>cells. cells) 82 48 ''easy'' 0 = Some (Inr (p, t1)) \<and>
      card (completions p) = 1 \<and> (\<exists>t''. solve ascending 82 p 2 0 = Inr (Number 1, p, t'')))"
proof -
  from generated_puzzle_unique[OF perm_orders_ascending perm_cells_id, of 82 48 "''easy''" 0]
  obtain p t1 where p: "generateSudokuPuzzle ascending (\<lambda>cells. cells) 82 48 ''easy'' 0 = Some (Inr (p, t1))"
    "card (completions p) = 1"
    "\<And>shuffle' fuel' t'. perm_orders shuffle' \<and> 81 < fuel' \<Longrightarrow> \<exists>t''. solve shuffle' fuel' p 2 t' = Inr (Number 1, p, t'')"
    by auto
  from p(3)[of ascending 82 0] perm_orders_ascending
  have "\<exists>t''. solve ascending 82 p 2 0 = Inr (Number 1, p, t'')" by simp
  with p(1,2) perm_orders_ascending perm_cells_id show ?thesis by auto
qed

lemma solve_frame:
  assumes "solve shuffle fuel b solutions t = Inr (res, b', t')" "b ! r ! c \<noteq> 0"
  shows "b' ! r ! c = b ! r ! c"
proof -
  let ?s = "\<lparr>boardOf = b, count = 0, tick = t\<rparr>"
  from assms(1) obtain found s' where bt: "backtrack shuffle solutions fuel ?s = Inr (found, s')"
    and b': "b' = boardOf s'"
    by (auto simp: solve_def bindE_eq_Inr split: if_splits)
  from frame(1)[OF bt, of r c] assms(2) b' show ?thesis by simp
qed

text \<open>
  C9: \<open>solve\<close> with \<open>solutions = 1\<close> returns every cell that was non-empty on entry
  with the value it had (the search assigns only to cells it has found empty); so the
  puzzle and the solution that \<open>newGame\<close> computes (a
  generated puzzle, and the grid that \<open>solve\<close> leaves on a copy of it) agree on every
  clue cell of the puzzle. The solution is a valid full grid.
\<close>

theorem solve_keeps_clues:
  assumes "perm_orders shuffle" "perm_cells shuffleCells" "81 < fuel"
  shows "(\<forall>shuffle' fuel' b t' res b' t'' r c.
            solve shuffle' fuel' b 1 t' = Inr (res, b', t'') \<and> b ! r ! c \<noteq> 0 \<longrightarrow>
            b' ! r ! c = b ! r ! c) \<and>
         (\<exists>currentPuzzle solution.
            newGame shuffle shuffleCells fuel difficulty t = Some (Inr (currentPuzzle, solution)) \<and>
            valid_grid solution \<and>
            (\<forall>r c. currentPuzzle ! r ! c \<noteq> 0 \<longrightarrow> solution ! r ! c = currentPuzzle ! r ! c))"
proof
  show "\<forall>shuffle' fuel' b t' res b' t'' r c.
            solve shuffle' fuel' b 1 t' = Inr (res, b', t'') \<and> b ! r ! c \<noteq> 0 \<longrightarrow>
            b' ! r ! c = b ! r ! c"
    using solve_frame by blast
next
  let ?T = "case DIFFICULTY_CLUES difficulty of Some n \<Rightarrow> n | None \<Rightarrow> the (DIFFICULTY_CLUES ''easy'')"
  from generate_result[OF assms, of ?T difficulty t] obtain g where
    g: "generateSudokuPuzzle shuffle shuffleCells fuel ?T difficulty t = Some (Inr (puzzle g, rnd g))"
    "genInv ?T g" by blast
  from g(2) have ok: "clues_ok (puzzle g)" and one: "card (completions (puzzle g)) = 1"
    by (simp_all add: genInv_def)
  from one have ne: "completions (puzzle g) \<noteq> {}" by auto
  from solve_find[OF ok assms(1) fuel_enough[OF assms(3)], of "rnd g"] ne
  obtain s t2 where s: "solve shuffle fuel (puzzle g) 1 (rnd g) = Inr (Bool True, s, t2)"
    "s \<in> completions (puzzle g)" by auto
  have "newGame shuffle shuffleCells fuel difficulty t = Some (Inr (puzzle g, s))"
    using g(1) s(1) by (simp add: newGame_def Let_def)
  moreover have "valid_grid s" using s(2) by (simp add: completions_def)
  moreover have "\<forall>r c. puzzle g ! r ! c \<noteq> 0 \<longrightarrow> s ! r ! c = puzzle g ! r ! c"
    using solve_frame[OF s(1)] by blast
  ultimately show "\<exists>currentPuzzle solution.
            newGame shuffle shuffleCells fuel difficulty t = Some (Inr (currentPuzzle, solution)) \<and>
            valid_grid solution \<and>
            (\<forall>r c. currentPuzzle ! r ! c \<noteq> 0 \<longrightarrow> solution ! r ! c = currentPuzzle ! r ! c)"
    by blast
qed

theorem solve_keeps_clues_witness:
  "perm_orders ascending \<and> perm_cells (\<lambda>cells. cells) \<and> (81::nat) < 82 \<and>
   solve ascending 82 twoSolutions 1 0 = Inr (Bool True, exampleSolution, 4) \<and>
   twoSolutions ! 0 ! 0 \<noteq> 0 \<and> exampleSolution ! 0 ! 0 = twoSolutions ! 0 ! 0 \<and>
   (\<exists>currentPuzzle solution.
      newGame ascending (\<lambda>cells. cells) 82 ''easy'' 0 = Some (Inr (currentPuzzle, solution)) \<and>
      valid_grid solution \<and>
      (\<forall>r c. currentPuzzle ! r ! c \<noteq> 0 \<longrightarrow> solution ! r ! c = currentPuzzle ! r ! c))"
proof -
  have f: "(81::nat) < 82" by simp
  note th = solve_keeps_clues[OF perm_orders_ascending perm_cells_id f, of "''easy''" 0]
  have run: "solve ascending 82 twoSolutions 1 0 = Inr (Bool True, exampleSolution, 4)" by code_simp
  have nz: "twoSolutions ! 0 ! 0 \<noteq> 0" by (simp add: twoSolutions_def)
  from th run nz have eq: "exampleSolution ! 0 ! 0 = twoSolutions ! 0 ! 0" by blast
  from th have "\<exists>currentPuzzle solution.
      newGame ascending (\<lambda>cells. cells) 82 ''easy'' 0 = Some (Inr (currentPuzzle, solution)) \<and>
      valid_grid solution \<and>
      (\<forall>r c. currentPuzzle ! r ! c \<noteq> 0 \<longrightarrow> solution ! r ! c = currentPuzzle ! r ! c)" by (rule conjunct2)
  with f eq run nz perm_orders_ascending perm_cells_id show ?thesis by (intro conjI)
qed

end
